theory Spec2Isabelle
  imports Main
begin

section \<open>Entities, components and errors\<close>

text \<open>
  An entity ID (\<^verbatim>\<open>entity.ID\<close>) is an unsigned integer handed out densely; an archetype ID
  (\<^verbatim>\<open>archetype.ID\<close>) is the position of the archetype in creation order. A component value
  (\<^verbatim>\<open>component_metadata.Component\<close>) is a value with a \<^verbatim>\<open>Name()\<close>; the metadata a world
  keeps for a registered component (\<^verbatim>\<open>IComponentMetaData\<close>) is its name together with
  the zero value of the component.
\<close>

type_synonym entity_id = nat
type_synonym archetype_id = nat
type_synonym Namespace = string
type_synonym 'v Component = "string \<times> 'v"
type_synonym 'v IComponentMetaData = "string \<times> 'v"

abbreviation Name :: "string \<times> 'v \<Rightarrow> string" where
  "Name \<equiv> fst"

datatype error =
    ErrorCannotModifyStateWithReadOnlyContext
  | ErrComponentNotRegistered
  | ErrMustRegisterComponent
  | ErrMustRegisterComponentBeforeCreating
  | ErrNotRegisteredBeforeUpdating
  | ErrComponentNotOnEntity
  | ErrComponentAlreadyOnEntity
  | ErrEntityNotFound
  | ErrArchetypeNotFound
  | ErrIndexOutOfRange

text \<open>
  Modelled from the spec: the constant \<^verbatim>\<open>storage.BadID\<close> is declared outside the sources;
  the spec calls it a reserved sentinel of the entity ID type that denotes "none". It is
  taken as the largest 64-bit unsigned value.
\<close>

definition BadID :: entity_id where
  "BadID = 2 ^ 64 - 1"

section \<open>The filter grammar\<close>

text \<open>
  \<^verbatim>\<open>cardinal/filter.go\<close> builds filters as a small tree: \<^verbatim>\<open>And\<close>, \<^verbatim>\<open>Or\<close>, \<^verbatim>\<open>Not\<close>,
  \<^verbatim>\<open>Contains\<close> and \<^verbatim>\<open>Exact\<close>, the last two over component values that are read by name.
\<close>

datatype Filter =
    And "Filter list"
  | Or "Filter list"
  | Not Filter
  | Contains "string list"
  | Exact "string list"

text \<open>
  Modelled from the spec: the implementations of \<^verbatim>\<open>MatchesComponents\<close> behind the
  \<^verbatim>\<open>filter.ComponentFilter\<close> interface are outside the sources. The spec evaluates a
  filter on the component set of an archetype: \<^verbatim>\<open>Contains(cs)\<close> when the set includes
  \<^verbatim>\<open>cs\<close>, \<^verbatim>\<open>Exact(cs)\<close> when the set equals \<^verbatim>\<open>cs\<close>, \<^verbatim>\<open>Not\<close> negates, an empty
  \<^verbatim>\<open>And\<close> matches all and an empty \<^verbatim>\<open>Or\<close> matches none.
\<close>

fun MatchesComponents :: "Filter \<Rightarrow> string list \<Rightarrow> bool" where
  "MatchesComponents (And fs) components = list_all (\<lambda>f. MatchesComponents f components) fs"
| "MatchesComponents (Or fs) components = list_ex (\<lambda>f. MatchesComponents f components) fs"
| "MatchesComponents (Not f) components = (\<not> MatchesComponents f components)"
| "MatchesComponents (Contains cs) components = (set cs \<subseteq> set components)"
| "MatchesComponents (Exact cs) components = (set cs = set components)"

section \<open>The archetype store\<close>

text \<open>
  Modelled from the spec: the store manager (\<^verbatim>\<open>store.IManager\<close>) and the entity iterator
  (\<^verbatim>\<open>storage.NewEntityIterator\<close>) are outside the sources; only their callers are given.
  After the spec, an archetype is a set of components with row-indexed storage: row
  \<open>r\<close> holds an entity ID and one value for each component. Archetypes are created on
  first use and never destroyed, so an archetype ID is an index into the list of
  archetypes. The location of an entity, (archetype, row), is the place where its ID
  stands. Entity IDs are handed out in increasing order and never reused.
\<close>

record 'v archetype =
  arch_comps :: "string list"
  arch_rows :: "(entity_id \<times> (string \<times> 'v) list) list"

record 'v store =
  archs :: "'v archetype list"
  next_id :: entity_id

definition empty_store :: "'v store" where
  "empty_store = \<lparr>archs = [], next_id = 0\<rparr>"

fun index_where :: "('a \<Rightarrow> bool) \<Rightarrow> 'a list \<Rightarrow> nat option" where
  "index_where P [] = None"
| "index_where P (x # xs) = (if P x then Some 0 else map_option Suc (index_where P xs))"

definition ArchetypeCount :: "'v store \<Rightarrow> nat" where
  "ArchetypeCount sm = length (archs sm)"

text \<open>
  \<^verbatim>\<open>sm.SearchFrom(filter, start)\<close> iterates the IDs of the archetypes created at position
  \<open>start\<close> or later whose component set the filter matches, in creation order. The
  iterator is read to its end by its only caller, so it is modelled as the list it yields.
\<close>

definition SearchFrom :: "'v store \<Rightarrow> Filter \<Rightarrow> nat \<Rightarrow> archetype_id list" where
  "SearchFrom sm f start =
     filter (\<lambda>i. MatchesComponents f (arch_comps (archs sm ! i))) [start ..< length (archs sm)]"

text \<open>
  \<^verbatim>\<open>iter.Next()\<close> of the entity iterator yields the entities of the next archetype of its
  list, in ascending row order, or an error when the store does not know the archetype.
  The iterator is not among the sources. Its result is a list of its own here, which
  settles what \<^verbatim>\<open>First\<close>, \<^verbatim>\<open>Count\<close> and a pass of \<^verbatim>\<open>Each\<close> that leaves the entities of the
  store in place see. Whether the slice it returns shares the rows of the store, and so
  what a pass visits once its callback has removed entities, is left open.
\<close>

definition GetEntitiesForArchID :: "'v store \<Rightarrow> archetype_id \<Rightarrow> error + entity_id list" where
  "GetEntitiesForArchID sm a =
     (if a < length (archs sm) then Inr (map fst (arch_rows (archs sm ! a)))
      else Inl ErrArchetypeNotFound)"

definition entity_loc :: "'v store \<Rightarrow> entity_id \<Rightarrow> (archetype_id \<times> nat) option" where
  "entity_loc sm eid =
     (case index_where (\<lambda>a. eid \<in> set (map fst (arch_rows a))) (archs sm) of
        None \<Rightarrow> None
      | Some a \<Rightarrow>
          (case index_where (\<lambda>row. fst row = eid) (arch_rows (archs sm ! a)) of
             None \<Rightarrow> None
           | Some r \<Rightarrow> Some (a, r)))"

definition archetype_for :: "'v store \<Rightarrow> string list \<Rightarrow> archetype_id \<times> 'v store" where
  "archetype_for sm cs =
     (case index_where (\<lambda>a. set (arch_comps a) = set cs) (archs sm) of
        Some a \<Rightarrow> (a, sm)
      | None \<Rightarrow>
          (length (archs sm), sm\<lparr>archs := archs sm @ [\<lparr>arch_comps = cs, arch_rows = []\<rparr>]\<rparr>))"

definition add_rows ::
  "'v store \<Rightarrow> archetype_id \<Rightarrow> (entity_id \<times> (string \<times> 'v) list) list \<Rightarrow> 'v store" where
  "add_rows sm a rows =
     sm\<lparr>archs := (archs sm)[a := (archs sm ! a)\<lparr>arch_rows := arch_rows (archs sm ! a) @ rows\<rparr>]\<rparr>"

text \<open>
  \<^verbatim>\<open>CreateManyEntities(num, comps...)\<close>: the archetype of the component set is looked up
  (created when absent) and \<open>num\<close> rows are added to it, one for each new entity ID, every
  component at its zero value.
\<close>

definition CreateManyEntities ::
  "'v store \<Rightarrow> nat \<Rightarrow> 'v IComponentMetaData list \<Rightarrow> error + (entity_id list \<times> 'v store)" where
  "CreateManyEntities sm num comps =
     (let (a, sm1) = archetype_for sm (map Name comps);
          ids = [next_id sm ..< next_id sm + num];
          sm2 = add_rows sm1 a (map (\<lambda>eid. (eid, comps)) ids)
      in Inr (ids, sm2\<lparr>next_id := next_id sm + num\<rparr>))"

fun set_value :: "string \<Rightarrow> 'v \<Rightarrow> (string \<times> 'v) list \<Rightarrow> (string \<times> 'v) list" where
  "set_value c v [] = [(c, v)]"
| "set_value c v (p # ps) = (if fst p = c then (c, v) # ps else p # set_value c v ps)"

definition set_row_value ::
  "'v store \<Rightarrow> archetype_id \<Rightarrow> nat \<Rightarrow> string \<Rightarrow> 'v \<Rightarrow> 'v store" where
  "set_row_value sm a r c v =
     (let arch = archs sm ! a; row = arch_rows arch ! r
      in sm\<lparr>archs := (archs sm)[a := arch\<lparr>arch_rows := (arch_rows arch)[r := (fst row, set_value c v (snd row))]\<rparr>]\<rparr>)"

definition SetComponentForEntity ::
  "'v store \<Rightarrow> 'v IComponentMetaData \<Rightarrow> entity_id \<Rightarrow> 'v \<Rightarrow> error + 'v store" where
  "SetComponentForEntity sm c eid v =
     (case entity_loc sm eid of
        None \<Rightarrow> Inl ErrEntityNotFound
      | Some (a, r) \<Rightarrow>
          if Name c \<in> set (arch_comps (archs sm ! a))
          then Inr (set_row_value sm a r (Name c) v)
          else Inl ErrComponentNotOnEntity)"

definition GetComponentForEntity ::
  "'v store \<Rightarrow> 'v IComponentMetaData \<Rightarrow> entity_id \<Rightarrow> error + 'v" where
  "GetComponentForEntity sm c eid =
     (case entity_loc sm eid of
        None \<Rightarrow> Inl ErrEntityNotFound
      | Some (a, r) \<Rightarrow>
          if Name c \<in> set (arch_comps (archs sm ! a))
          then (case map_of (snd (arch_rows (archs sm ! a) ! r)) (Name c) of
                  None \<Rightarrow> Inr (snd c)
                | Some v \<Rightarrow> Inr v)
          else Inl ErrComponentNotOnEntity)"

definition GetComponentTypesForEntity :: "'v store \<Rightarrow> entity_id \<Rightarrow> error + string list" where
  "GetComponentTypesForEntity sm eid =
     (case entity_loc sm eid of
        None \<Rightarrow> Inl ErrEntityNotFound
      | Some (a, r) \<Rightarrow> Inr (arch_comps (archs sm ! a)))"

text \<open>
  Destroying an entity removes its row by swap-with-last: the last row of the archetype
  moves into the freed slot and the archetype loses its last row.
\<close>

definition swap_remove :: "'a list \<Rightarrow> nat \<Rightarrow> 'a list" where
  "swap_remove rows r =
     (if r < length rows - 1 then (butlast rows)[r := last rows] else butlast rows)"

definition remove_row :: "'v store \<Rightarrow> archetype_id \<Rightarrow> nat \<Rightarrow> 'v store" where
  "remove_row sm a r =
     sm\<lparr>archs := (archs sm)[a := (archs sm ! a)\<lparr>arch_rows := swap_remove (arch_rows (archs sm ! a)) r\<rparr>]\<rparr>"

definition RemoveEntity :: "'v store \<Rightarrow> entity_id \<Rightarrow> error + 'v store" where
  "RemoveEntity sm eid =
     (case entity_loc sm eid of
        None \<Rightarrow> Inl ErrEntityNotFound
      | Some (a, r) \<Rightarrow> Inr (remove_row sm a r))"

text \<open>
  Moving an entity to another component set keeps the values of the components it
  retains and gives the added ones the value handed in; its row leaves the old archetype
  by swap-remove and is appended to the new one.
\<close>

definition move_entity ::
  "'v store \<Rightarrow> archetype_id \<Rightarrow> nat \<Rightarrow> string list \<Rightarrow> (string \<times> 'v) list \<Rightarrow> 'v store" where
  "move_entity sm a r cs added =
     (let row = arch_rows (archs sm ! a) ! r;
          vals = filter (\<lambda>p. fst p \<in> set cs) (snd row) @ added;
          (b, sm1) = archetype_for (remove_row sm a r) cs
      in add_rows sm1 b [(fst row, vals)])"

definition AddComponentToEntity ::
  "'v store \<Rightarrow> 'v IComponentMetaData \<Rightarrow> entity_id \<Rightarrow> error + 'v store" where
  "AddComponentToEntity sm c eid =
     (case entity_loc sm eid of
        None \<Rightarrow> Inl ErrEntityNotFound
      | Some (a, r) \<Rightarrow>
          if Name c \<in> set (arch_comps (archs sm ! a)) then Inl ErrComponentAlreadyOnEntity
          else Inr (move_entity sm a r (arch_comps (archs sm ! a) @ [Name c]) [c]))"

definition RemoveComponentFromEntity ::
  "'v store \<Rightarrow> 'v IComponentMetaData \<Rightarrow> entity_id \<Rightarrow> error + 'v store" where
  "RemoveComponentFromEntity sm c eid =
     (case entity_loc sm eid of
        None \<Rightarrow> Inl ErrEntityNotFound
      | Some (a, r) \<Rightarrow>
          if Name c \<in> set (arch_comps (archs sm ! a))
          then Inr (move_entity sm a r (filter (\<lambda>n. n \<noteq> Name c) (arch_comps (archs sm ! a))) [])
          else Inl ErrComponentNotOnEntity)"

section \<open>Worlds and contexts\<close>

text \<open>
  A world has a namespace, the components registered with it and its store. A world
  context (\<^verbatim>\<open>ecs.WorldContext\<close>) is a world together with the read-only flag;
  \<^verbatim>\<open>StoreManager()\<close> and \<^verbatim>\<open>StoreReader()\<close> of a context both reach the store of its world.
\<close>

record 'v World =
  namespace :: Namespace
  registry :: "'v IComponentMetaData list"
  StoreManager :: "'v store"

record 'v WorldContext =
  IsReadOnly :: bool
  GetWorld :: "'v World"

definition GetComponentByName :: "'v World \<Rightarrow> string \<Rightarrow> error + 'v IComponentMetaData" where
  "GetComponentByName w name =
     (case map_of (registry w) name of
        None \<Rightarrow> Inl ErrComponentNotRegistered
      | Some z \<Rightarrow> Inr (name, z))"

section \<open>Search (cardinal/ecs/search.go)\<close>

record cache =
  archetypes :: "archetype_id list"
  seen :: nat

record Search =
  archMatches :: "Namespace \<Rightarrow> cache option"
  filter_f :: Filter

definition NewSearch :: "Filter \<Rightarrow> Search" where
  "NewSearch f = \<lparr>archMatches = Map.empty, filter_f = f\<rparr>"

text \<open>
  \<^verbatim>\<open>evaluateSearch\<close> creates the cache of the namespace when it is absent, appends the
  matches among the archetypes from \<^verbatim>\<open>cache.seen\<close> on, records the archetype count and
  returns the accumulated list. The search object is mutated; the model returns it.
\<close>

definition evaluateSearch :: "Search \<Rightarrow> Namespace \<Rightarrow> 'v store \<Rightarrow> archetype_id list \<times> Search" where
  "evaluateSearch q ns sm =
     (let q1 = (case archMatches q ns of
                  None \<Rightarrow> q\<lparr>archMatches := (archMatches q)(ns \<mapsto> \<lparr>archetypes = [], seen = 0\<rparr>)\<rparr>
                | Some c \<Rightarrow> q);
          c = (case archMatches q1 ns of None \<Rightarrow> \<lparr>archetypes = [], seen = 0\<rparr> | Some c \<Rightarrow> c);
          c1 = c\<lparr>archetypes := archetypes c @ SearchFrom sm (filter_f q) (seen c)\<rparr>;
          c2 = c1\<lparr>seen := ArchetypeCount sm\<rparr>
      in (archetypes c2, q1\<lparr>archMatches := (archMatches q1)(ns \<mapsto> c2)\<rparr>))"

text \<open>
  \<^verbatim>\<open>Each\<close>: the callback reads and changes the world and whatever its closure holds; it
  is a function from the entity and that state to the \<^verbatim>\<open>continue\<close> flag and the new
  state. The iterator reads the store of the world as it is when \<^verbatim>\<open>Next\<close> is called.
  The inner loop returns \<open>False\<close> when the callback stopped the iteration.
\<close>

type_synonym ('v, 'u) SearchCallBackFn =
  "entity_id \<Rightarrow> 'v World \<times> 'u \<Rightarrow> bool \<times> ('v World \<times> 'u)"

fun each_entities ::
  "('v, 'u) SearchCallBackFn \<Rightarrow> entity_id list \<Rightarrow> 'v World \<times> 'u \<Rightarrow> bool \<times> ('v World \<times> 'u)" where
  "each_entities callback [] s = (True, s)"
| "each_entities callback (eid # entities) s =
     (case callback eid s of
        (cont, s1) \<Rightarrow> if \<not> cont then (False, s1) else each_entities callback entities s1)"

fun each_archetypes ::
  "('v, 'u) SearchCallBackFn \<Rightarrow> archetype_id list \<Rightarrow> 'v World \<times> 'u \<Rightarrow> error option \<times> ('v World \<times> 'u)" where
  "each_archetypes callback [] s = (None, s)"
| "each_archetypes callback (a # result) s =
     (case GetEntitiesForArchID (StoreManager (fst s)) a of
        Inl err \<Rightarrow> (Some err, s)
      | Inr entities \<Rightarrow>
          (case each_entities callback entities s of
             (cont, s1) \<Rightarrow> if \<not> cont then (None, s1) else each_archetypes callback result s1))"

definition Each ::
  "Search \<Rightarrow> ('v, 'u) SearchCallBackFn \<Rightarrow> 'v World \<times> 'u \<Rightarrow> error option \<times> Search \<times> ('v World \<times> 'u)" where
  "Each q callback s =
     (let (result, q1) = evaluateSearch q (namespace (fst s)) (StoreManager (fst s));
          (err, s1) = each_archetypes callback result s
      in (err, q1, s1))"

fun count_archetypes :: "'v store \<Rightarrow> archetype_id list \<Rightarrow> nat \<Rightarrow> error + nat" where
  "count_archetypes sm [] ret = Inr ret"
| "count_archetypes sm (a # result) ret =
     (case GetEntitiesForArchID sm a of
        Inl err \<Rightarrow> Inl err
      | Inr entities \<Rightarrow> count_archetypes sm result (ret + length entities))"

definition Count :: "Search \<Rightarrow> 'v World \<Rightarrow> (error + nat) \<times> Search" where
  "Count q w =
     (let (result, q1) = evaluateSearch q (namespace w) (StoreManager w)
      in (count_archetypes (StoreManager w) result 0, q1))"

text \<open>
  \<^verbatim>\<open>First\<close> returns a pair (eid, err). The \<^verbatim>\<open>err\<close> of its last \<^verbatim>\<open>return storage.BadID, err\<close>
  is the named result, which no statement assigns (the loop declares an \<^verbatim>\<open>err\<close> of its
  own), so it is nil there: \<open>None\<close>.
\<close>

fun first_archetypes :: "'v store \<Rightarrow> archetype_id list \<Rightarrow> entity_id \<times> error option" where
  "first_archetypes sm [] = (BadID, None)"
| "first_archetypes sm (a # result) =
     (case GetEntitiesForArchID sm a of
        Inl err \<Rightarrow> (0, Some err)
      | Inr entities \<Rightarrow>
          (case entities of
             [] \<Rightarrow> first_archetypes sm result
           | eid # rest \<Rightarrow> (eid, None)))"

definition First :: "Search \<Rightarrow> 'v World \<Rightarrow> (entity_id \<times> error option) \<times> Search" where
  "First q w =
     (let (result, q1) = evaluateSearch q (namespace w) (StoreManager w)
      in (if result = [] then (BadID, None) else first_archetypes (StoreManager w) result, q1))"

datatype 'a outcome = Panics | Returns 'a

definition MustFirst :: "Search \<Rightarrow> 'v World \<Rightarrow> entity_id outcome \<times> Search" where
  "MustFirst q w =
     (case First q w of
        ((eid, err), q1) \<Rightarrow> (case err of Some e \<Rightarrow> (Panics, q1) | None \<Rightarrow> (Returns eid, q1)))"

section \<open>Component API (cardinal/ecs/component/component.go)\<close>

text \<open>
  Each function of the API takes the context and returns its result together with the
  world as the call leaves it. The type parameter of the generic functions is used for
  its \<^verbatim>\<open>Name()\<close> only, so it is passed as the name. \<open>num\<close> is the number of entities to
  create.
\<close>

fun collect_metadata :: "'v World \<Rightarrow> 'v Component list \<Rightarrow> error + 'v IComponentMetaData list" where
  "collect_metadata world [] = Inr []"
| "collect_metadata world (comp' # components) =
     (case GetComponentByName world (Name comp') of
        Inl err \<Rightarrow> Inl err
      | Inr c \<Rightarrow>
          (case collect_metadata world components of
             Inl err \<Rightarrow> Inl err
           | Inr acc \<Rightarrow> Inr (c # acc)))"

fun set_components :: "'v World \<Rightarrow> entity_id \<Rightarrow> 'v Component list \<Rightarrow> error option \<times> 'v World" where
  "set_components world eid [] = (None, world)"
| "set_components world eid (comp' # components) =
     (case GetComponentByName world (Name comp') of
        Inl err \<Rightarrow> (Some ErrMustRegisterComponentBeforeCreating, world)
      | Inr c \<Rightarrow>
          (case SetComponentForEntity (StoreManager world) c eid (snd comp') of
             Inl err \<Rightarrow> (Some err, world)
           | Inr sm \<Rightarrow> set_components (world\<lparr>StoreManager := sm\<rparr>) eid components))"

fun set_entities :: "'v World \<Rightarrow> entity_id list \<Rightarrow> 'v Component list \<Rightarrow> error option \<times> 'v World" where
  "set_entities world [] components = (None, world)"
| "set_entities world (eid # entityIds) components =
     (case set_components world eid components of
        (Some err, world1) \<Rightarrow> (Some err, world1)
      | (None, world1) \<Rightarrow> set_entities world1 entityIds components)"

definition CreateMany ::
  "'v WorldContext \<Rightarrow> nat \<Rightarrow> 'v Component list \<Rightarrow> (error + entity_id list) \<times> 'v World" where
  "CreateMany wCtx num components =
     (if IsReadOnly wCtx then (Inl ErrorCannotModifyStateWithReadOnlyContext, GetWorld wCtx)
      else
        let world = GetWorld wCtx in
        case collect_metadata world components of
          Inl err \<Rightarrow> (Inl err, world)
        | Inr acc \<Rightarrow>
            (case CreateManyEntities (StoreManager world) num acc of
               Inl err \<Rightarrow> (Inl err, world)
             | Inr (entityIds, sm) \<Rightarrow>
                 (case set_entities (world\<lparr>StoreManager := sm\<rparr>) entityIds components of
                    (Some err, world1) \<Rightarrow> (Inl err, world1)
                  | (None, world1) \<Rightarrow> (Inr entityIds, world1))))"

text \<open>\<^verbatim>\<open>Create\<close> returns \<^verbatim>\<open>entities[0]\<close>, which panics on an empty slice.\<close>

definition Create :: "'v WorldContext \<Rightarrow> 'v Component list \<Rightarrow> (error + entity_id) \<times> 'v World" where
  "Create wCtx components =
     (case CreateMany wCtx 1 components of
        (Inl err, world) \<Rightarrow> (Inl err, world)
      | (Inr entities, world) \<Rightarrow>
          (case entities of
             [] \<Rightarrow> (Inl ErrIndexOutOfRange, world)
           | eid # rest \<Rightarrow> (Inr eid, world)))"

definition RemoveComponentFrom ::
  "string \<Rightarrow> 'v WorldContext \<Rightarrow> entity_id \<Rightarrow> error option \<times> 'v World" where
  "RemoveComponentFrom name wCtx eid =
     (if IsReadOnly wCtx then (Some ErrorCannotModifyStateWithReadOnlyContext, GetWorld wCtx)
      else
        let w = GetWorld wCtx in
        case GetComponentByName w name of
          Inl err \<Rightarrow> (Some ErrMustRegisterComponent, w)
        | Inr c \<Rightarrow>
            (case RemoveComponentFromEntity (StoreManager w) c eid of
               Inl err \<Rightarrow> (Some err, w)
             | Inr sm \<Rightarrow> (None, w\<lparr>StoreManager := sm\<rparr>)))"

definition AddComponentTo ::
  "string \<Rightarrow> 'v WorldContext \<Rightarrow> entity_id \<Rightarrow> error option \<times> 'v World" where
  "AddComponentTo name wCtx eid =
     (if IsReadOnly wCtx then (Some ErrorCannotModifyStateWithReadOnlyContext, GetWorld wCtx)
      else
        let w = GetWorld wCtx in
        case GetComponentByName w name of
          Inl err \<Rightarrow> (Some ErrMustRegisterComponent, w)
        | Inr c \<Rightarrow>
            (case AddComponentToEntity (StoreManager w) c eid of
               Inl err \<Rightarrow> (Some err, w)
             | Inr sm \<Rightarrow> (None, w\<lparr>StoreManager := sm\<rparr>)))"

text \<open>
  \<^verbatim>\<open>GetComponent\<close> has no check of the read-only flag. The value the store holds under
  the name of \<^verbatim>\<open>T\<close> is a \<^verbatim>\<open>T\<close>, so the type assertion on it succeeds.
\<close>

definition GetComponent :: "string \<Rightarrow> 'v WorldContext \<Rightarrow> entity_id \<Rightarrow> error + 'v" where
  "GetComponent name wCtx eid =
     (case GetComponentByName (GetWorld wCtx) name of
        Inl err \<Rightarrow> Inl ErrMustRegisterComponent
      | Inr c \<Rightarrow>
          (case GetComponentForEntity (StoreManager (GetWorld wCtx)) c eid of
             Inl err \<Rightarrow> Inl err
           | Inr val \<Rightarrow> Inr val))"

definition SetComponent ::
  "string \<Rightarrow> 'v WorldContext \<Rightarrow> entity_id \<Rightarrow> 'v \<Rightarrow> error option \<times> 'v World" where
  "SetComponent name wCtx eid component =
     (if IsReadOnly wCtx then (Some ErrorCannotModifyStateWithReadOnlyContext, GetWorld wCtx)
      else
        case GetComponentByName (GetWorld wCtx) name of
          Inl err \<Rightarrow> (Some ErrNotRegisteredBeforeUpdating, GetWorld wCtx)
        | Inr c \<Rightarrow>
            (case SetComponentForEntity (StoreManager (GetWorld wCtx)) c eid component of
               Inl err \<Rightarrow> (Some err, GetWorld wCtx)
             | Inr sm \<Rightarrow> (None, (GetWorld wCtx)\<lparr>StoreManager := sm\<rparr>)))"

definition UpdateComponent ::
  "string \<Rightarrow> 'v WorldContext \<Rightarrow> entity_id \<Rightarrow> ('v \<Rightarrow> 'v) \<Rightarrow> error option \<times> 'v World" where
  "UpdateComponent name wCtx eid fn =
     (if IsReadOnly wCtx then (Some ErrorCannotModifyStateWithReadOnlyContext, GetWorld wCtx)
      else
        case GetComponent name wCtx eid of
          Inl err \<Rightarrow> (Some err, GetWorld wCtx)
        | Inr val \<Rightarrow> SetComponent name wCtx eid (fn val))"

text \<open>
  Modelled from the spec: \<^verbatim>\<open>Remove(wCtx, id)\<close> is called by the tests and defined outside
  the sources. After the spec it is one of the mutation APIs that a read-only context
  blocks, and it destroys the entity in the store.
\<close>

definition Remove :: "'v WorldContext \<Rightarrow> entity_id \<Rightarrow> error option \<times> 'v World" where
  "Remove wCtx eid =
     (if IsReadOnly wCtx then (Some ErrorCannotModifyStateWithReadOnlyContext, GetWorld wCtx)
      else
        case RemoveEntity (StoreManager (GetWorld wCtx)) eid of
          Inl err \<Rightarrow> (Some err, GetWorld wCtx)
        | Inr sm \<Rightarrow> (None, (GetWorld wCtx)\<lparr>StoreManager := sm\<rparr>))"

definition NewWorldContext :: "'v World \<Rightarrow> 'v WorldContext" where
  "NewWorldContext w = \<lparr>IsReadOnly = False, GetWorld = w\<rparr>"

definition NewReadOnlyWorldContext :: "'v World \<Rightarrow> 'v WorldContext" where
  "NewReadOnlyWorldContext w = \<lparr>IsReadOnly = True, GetWorld = w\<rparr>"

section \<open>What a search is expected to find\<close>

text \<open>
  The filter evaluated from scratch: the IDs of all archetypes of the store whose
  component set the filter matches, in creation order, and the entities of those
  archetypes, archetype by archetype in creation order and by ascending row within one.
\<close>

definition matching_archetypes :: "'v store \<Rightarrow> Filter \<Rightarrow> archetype_id list" where
  "matching_archetypes sm f =
     filter (\<lambda>i. MatchesComponents f (arch_comps (archs sm ! i))) [0 ..< length (archs sm)]"

definition matching_entities :: "'v store \<Rightarrow> Filter \<Rightarrow> entity_id list" where
  "matching_entities sm f =
     concat (map (\<lambda>i. map fst (arch_rows (archs sm ! i))) (matching_archetypes sm f))"

text \<open>
  The component sets and the entity IDs of a store, archetype by archetype.
\<close>

definition comps_of :: "'v store \<Rightarrow> string list list" where
  "comps_of sm = map arch_comps (archs sm)"

definition layout :: "'v store \<Rightarrow> entity_id list list" where
  "layout sm = map (\<lambda>a. map fst (arch_rows a)) (archs sm)"

text \<open>
  A cache of a search fits a store when it has seen no more archetypes than the store
  has and lists the matches among the archetypes it has seen. A search that has no cache
  for the namespace fits every store.
\<close>

definition cache_ok :: "Search \<Rightarrow> Namespace \<Rightarrow> 'v store \<Rightarrow> bool" where
  "cache_ok q ns sm =
     (case archMatches q ns of
        None \<Rightarrow> True
      | Some c \<Rightarrow>
          seen c \<le> length (archs sm) \<and>
          archetypes c = filter (\<lambda>i. MatchesComponents (filter_f q) (arch_comps (archs sm ! i))) [0 ..< seen c])"

text \<open>
  A history of a search object: between two evaluations the store of a namespace is
  changed by any of the operations of the store manager (an operation that fails leaves
  the store as it is). Each namespace has its store.
\<close>

datatype 'v store_op =
    OpCreateMany nat "'v IComponentMetaData list"
  | OpSetComponent "'v IComponentMetaData" entity_id 'v
  | OpRemove entity_id
  | OpAddComponent "'v IComponentMetaData" entity_id
  | OpRemoveComponent "'v IComponentMetaData" entity_id

fun apply_op :: "'v store_op \<Rightarrow> 'v store \<Rightarrow> 'v store" where
  "apply_op (OpCreateMany num comps) sm =
     (case CreateManyEntities sm num comps of Inl err \<Rightarrow> sm | Inr (ids, sm1) \<Rightarrow> sm1)"
| "apply_op (OpSetComponent c eid v) sm =
     (case SetComponentForEntity sm c eid v of Inl err \<Rightarrow> sm | Inr sm1 \<Rightarrow> sm1)"
| "apply_op (OpRemove eid) sm =
     (case RemoveEntity sm eid of Inl err \<Rightarrow> sm | Inr sm1 \<Rightarrow> sm1)"
| "apply_op (OpAddComponent c eid) sm =
     (case AddComponentToEntity sm c eid of Inl err \<Rightarrow> sm | Inr sm1 \<Rightarrow> sm1)"
| "apply_op (OpRemoveComponent c eid) sm =
     (case RemoveComponentFromEntity sm c eid of Inl err \<Rightarrow> sm | Inr sm1 \<Rightarrow> sm1)"

datatype 'v event = Mutate Namespace "'v store_op" | Evaluate Namespace

fun run_events ::
  "'v event list \<Rightarrow> Search \<times> (Namespace \<Rightarrow> 'v store) \<Rightarrow> Search \<times> (Namespace \<Rightarrow> 'v store)" where
  "run_events [] s = s"
| "run_events (Mutate ns op # es) (q, worlds) =
     run_events es (q, worlds(ns := apply_op op (worlds ns)))"
| "run_events (Evaluate ns # es) (q, worlds) =
     run_events es (snd (evaluateSearch q ns (worlds ns)), worlds)"

text \<open>
  A store grows into another when the archetypes of the first are, with the same
  component sets and at the same positions, archetypes of the second.
\<close>

definition grows :: "'v store \<Rightarrow> 'v store \<Rightarrow> bool" where
  "grows sm sm' \<longleftrightarrow> take (length (archs sm)) (comps_of sm') = comps_of sm"

text \<open>
  The location of an entity read off the entity IDs alone, the values an entity holds at
  a location, and the invariant of the store: no entity ID stands in two rows, and every
  ID in use is below the next ID to hand out.
\<close>

definition loc_in :: "entity_id list list \<Rightarrow> entity_id \<Rightarrow> (archetype_id \<times> nat) option" where
  "loc_in ls eid =
     (case index_where (\<lambda>l. eid \<in> set l) ls of
        None \<Rightarrow> None
      | Some a \<Rightarrow>
          (case index_where (\<lambda>x. x = eid) (ls ! a) of
             None \<Rightarrow> None
           | Some r \<Rightarrow> Some (a, r)))"

definition vals_at :: "'v store \<Rightarrow> archetype_id \<Rightarrow> nat \<Rightarrow> (string \<times> 'v) list" where
  "vals_at sm a r = snd (arch_rows (archs sm ! a) ! r)"

definition wf_store :: "'v store \<Rightarrow> bool" where
  "wf_store sm \<longleftrightarrow>
     distinct (concat (layout sm)) \<and> list_all (\<lambda>eid. eid < next_id sm) (concat (layout sm))"

text \<open>
  Two stores have the same shape when they agree on archetypes, on the entities in each
  row and on the next ID; \<open>set_all\<close> writes the values of a list of components into a
  row, one after the other as the loops of \<^verbatim>\<open>CreateMany\<close> do.
\<close>

definition same_shape :: "'v store \<Rightarrow> 'v store \<Rightarrow> bool" where
  "same_shape sm sm' \<longleftrightarrow>
     layout sm' = layout sm \<and> comps_of sm' = comps_of sm \<and> next_id sm' = next_id sm"

definition set_all :: "'v Component list \<Rightarrow> (string \<times> 'v) list \<Rightarrow> (string \<times> 'v) list" where
  "set_all components vals = fold (\<lambda>comp'. set_value (Name comp') (snd comp')) components vals"

text \<open>
  The callback that only records the entity it is called on, as the \<^verbatim>\<open>count++\<close> of the
  tests does; and the world of the filter scenario: three registered components, 50
  entities created with two of them and 20 with all three.
\<close>

definition log_visit :: "('v, entity_id list) SearchCallBackFn" where
  "log_visit eid s = (True, (fst s, snd s @ [eid]))"

definition abc_world :: "int World" where
  "abc_world =
     \<lparr>namespace = ''world'', registry = [(''alpha'', 0), (''beta'', 0), (''gamma'', 0)],
      StoreManager = empty_store\<rparr>"

definition filter_world :: "int World" where
  "filter_world =
     snd (CreateMany
            (NewWorldContext (snd (CreateMany (NewWorldContext abc_world) 50 [(''alpha'', 0), (''beta'', 0)])))
            20 [(''alpha'', 0), (''beta'', 0), (''gamma'', 0)])"

section \<open>The signature and nonce verifier\<close>

text \<open>
  Modelled from the spec: the signature and nonce verifier (section 4.F) is not among
  the sources; only the test \<^verbatim>\<open>TestSigVerificationChecksNonce\<close> of its HTTP handler is.
  The body of a signed payload is the built-in \<^verbatim>\<open>CreatePersona(persona_tag, signer_address)\<close>
  or any other message.
\<close>

datatype body = CreatePersona string string | Message string

text \<open>
  Modelled from the spec: a signed payload carries a persona tag, a namespace, a nonce,
  a signature and a body.
\<close>

record signed_payload =
  persona_tag :: string
  payload_namespace :: string
  nonce :: nat
  signature :: string
  body :: body

text \<open>
  Modelled from the spec: the errors of the four validation steps of section 4.F.
\<close>

datatype verification_error = NamespaceMismatch | UnknownPersona | StaleNonce | BadSignature

text \<open>
  Modelled from the spec: the verifier keeps the last seen nonce of every persona tag
  (the nonce table) and reads the committed signer addresses of the persona registry.
\<close>

record verifier =
  last_seen_nonce :: "string \<Rightarrow> nat"
  signers :: "string \<rightharpoonup> string"

text \<open>
  Modelled from the spec: the codes of section 6 for callers that marshal to a network
  layer. All four verification errors go out with code 401, success with 0.
\<close>

definition error_code :: "verification_error option \<Rightarrow> nat" where
  "error_code r =
     (case r of
        None \<Rightarrow> 0
      | Some NamespaceMismatch \<Rightarrow> 401
      | Some UnknownPersona \<Rightarrow> 401
      | Some StaleNonce \<Rightarrow> 401
      | Some BadSignature \<Rightarrow> 401)"

text \<open>
  Modelled from the spec: step 2 of the verifier. The persona tag resolves to its
  committed signer address; a payload that carries \<^verbatim>\<open>CreatePersona\<close> needs no committed
  persona and is checked against the signer address it brings.
\<close>

definition resolve_signer :: "verifier \<Rightarrow> signed_payload \<Rightarrow> string option" where
  "resolve_signer st p =
     (case signers st (persona_tag p) of
        Some addr \<Rightarrow> Some addr
      | None \<Rightarrow>
          (case body p of
             CreatePersona tag addr \<Rightarrow> Some addr
           | Message m \<Rightarrow> None))"

text \<open>
  Modelled from the spec: the validation steps 1 to 5 of section 4.F, in their order.
  \<open>verify\<close> is the signature check, a black box of the spec. A rejection leaves the
  verifier as it was; success sets the last seen nonce of the persona tag to the nonce
  of the payload. The mode in which verification is disabled is left out.
\<close>

definition verify_payload ::
  "(string \<Rightarrow> body \<Rightarrow> string \<Rightarrow> bool) \<Rightarrow> string \<Rightarrow> verifier \<Rightarrow> signed_payload
     \<Rightarrow> verification_error + verifier" where
  "verify_payload verify world_namespace st p =
     (if payload_namespace p \<noteq> world_namespace then Inl NamespaceMismatch
      else
        case resolve_signer st p of
          None \<Rightarrow> Inl UnknownPersona
        | Some addr \<Rightarrow>
            if \<not> nonce p > last_seen_nonce st (persona_tag p) then Inl StaleNonce
            else if \<not> verify addr (body p) (signature p) then Inl BadSignature
            else Inr (st\<lparr>last_seen_nonce := (last_seen_nonce st)(persona_tag p := nonce p)\<rparr>))"

text \<open>
  Payloads submitted one after the other: each one with what the verifier said to it
  (\<open>None\<close> when it was accepted), and the verifier after the last one.
\<close>

fun submit_all ::
  "(string \<Rightarrow> body \<Rightarrow> string \<Rightarrow> bool) \<Rightarrow> string \<Rightarrow> verifier \<Rightarrow> signed_payload list
     \<Rightarrow> (signed_payload \<times> verification_error option) list \<times> verifier" where
  "submit_all verify world_namespace st [] = ([], st)"
| "submit_all verify world_namespace st (p # ps) =
     (case verify_payload verify world_namespace st p of
        Inl e \<Rightarrow>
          (case submit_all verify world_namespace st ps of
             (rs, st') \<Rightarrow> ((p, Some e) # rs, st'))
      | Inr st1 \<Rightarrow>
          (case submit_all verify world_namespace st1 ps of
             (rs, st') \<Rightarrow> ((p, None) # rs, st')))"

text \<open>
  The nonces of the accepted payloads of one persona tag, in the order of submission.
\<close>

definition accepted_nonces :: "(signed_payload \<times> verification_error option) list \<Rightarrow> string \<Rightarrow> nat list" where
  "accepted_nonces rs tag =
     map (\<lambda>r. nonce (fst r)) (filter (\<lambda>r. snd r = None \<and> persona_tag (fst r) = tag) rs)"

text \<open>
  The payloads of \<^verbatim>\<open>TestSigVerificationChecksNonce\<close>: a \<^verbatim>\<open>CreatePersona\<close> for the tag
  \<^verbatim>\<open>some_dude\<close> with the given nonce, in the namespace of the world, and a verifier that
  has seen no payload and knows no persona.
\<close>

definition nonce_payload :: "nat \<Rightarrow> signed_payload" where
  "nonce_payload n =
     \<lparr>persona_tag = ''some_dude'', payload_namespace = ''world'', nonce = n,
      signature = ''sig'', body = CreatePersona ''some_dude'' ''0xaddr''\<rparr>"

text \<open>
  A verifier that has seen no payload and knows no persona.
\<close>

definition fresh_verifier :: verifier where
  "fresh_verifier = \<lparr>last_seen_nonce = (\<lambda>tag. 0), signers = Map.empty\<rparr>"

section \<open>Receipts and the tick\<close>

text \<open>
  Modelled from the spec: the receipt of a processed message (section 3) holds the hash
  of the message, the hash of the external transaction when there is one, the encoded
  result and the errors. Receipts, the receipt store and the tick that fills it are not
  among the sources; only the test \<^verbatim>\<open>TestEVMTxConsume\<close> is.
\<close>

record receipt =
  tx_hash :: string
  external_tx_hash :: "string option"
  encoded_result :: string
  errors :: "string list"

text \<open>
  Modelled from the spec: a message in a queue carries the ID of its kind, its hash,
  the signed payload, the decoded input and, optionally, the hash of an external
  transaction.
\<close>

record ('i, 'p) message =
  kind_id :: nat
  msg_tx_hash :: string
  signed_payload :: 'p
  decoded_input :: 'i
  optional_external_tx_hash :: "string option"

text \<open>
  Modelled from the spec: the receipt store (section 4.I) is keyed by message hash and
  by external transaction hash; every receipt is kept with the tick that made it.
\<close>

record receipt_store =
  by_tx_hash :: "string \<rightharpoonup> receipt \<times> nat"
  by_external_tx_hash :: "string \<rightharpoonup> receipt \<times> nat"

text \<open>
  Modelled from the spec: \<^verbatim>\<open>put(tx_hash, receipt)\<close> files the receipt under the hash of
  its message and, when it has one, under its external hash.
\<close>

definition put :: "nat \<Rightarrow> receipt_store \<Rightarrow> string \<Rightarrow> receipt \<Rightarrow> receipt_store" where
  "put now rs h r =
     \<lparr>by_tx_hash = (by_tx_hash rs)(h \<mapsto> (r, now)),
      by_external_tx_hash =
        (case external_tx_hash r of
           None \<Rightarrow> by_external_tx_hash rs
         | Some x \<Rightarrow> (by_external_tx_hash rs)(x \<mapsto> (r, now)))\<rparr>"

text \<open>
  Modelled from the spec: \<^verbatim>\<open>get(tx_hash)\<close> reads a receipt and leaves the store alone.
\<close>

definition get :: "receipt_store \<Rightarrow> string \<Rightarrow> receipt option" where
  "get rs h = map_option fst (by_tx_hash rs h)"

text \<open>
  Modelled from the spec: \<^verbatim>\<open>consume(external_tx_hash)\<close> returns the receipt filed under
  the external hash, or nothing, and removes the receipt on read.
\<close>

definition consume :: "receipt_store \<Rightarrow> string \<Rightarrow> receipt option \<times> receipt_store" where
  "consume rs x =
     (case by_external_tx_hash rs x of
        None \<Rightarrow> (None, rs)
      | Some (r, t) \<Rightarrow>
          (Some r,
           \<lparr>by_tx_hash = (by_tx_hash rs)(tx_hash r := None),
            by_external_tx_hash = (by_external_tx_hash rs)(x := None)\<rparr>))"

text \<open>
  Modelled from the spec: at tick commit the receipts older than the configured TTL, in
  ticks, are evicted.
\<close>

definition evict :: "nat \<Rightarrow> nat \<Rightarrow> receipt_store \<Rightarrow> receipt_store" where
  "evict ttl now rs =
     \<lparr>by_tx_hash = (\<lambda>h. case by_tx_hash rs h of
                          None \<Rightarrow> None
                        | Some (r, t) \<Rightarrow> if now - t > ttl then None else Some (r, t)),
      by_external_tx_hash = (\<lambda>x. case by_external_tx_hash rs x of
                          None \<Rightarrow> None
                        | Some (r, t) \<Rightarrow> if now - t > ttl then None else Some (r, t))\<rparr>"

text \<open>
  Modelled from the spec: the engine as far as receipts go: the pending queue, the
  receipt store and the tick counter.
\<close>

record ('i, 'p) engine =
  pending :: "('i, 'p) message list"
  receipts :: receipt_store
  current_tick :: nat

text \<open>
  Modelled from the spec: \<^verbatim>\<open>enqueue(kind_id, decoded_input, signed_payload,
  optional_external_tx_hash)\<close> appends the message to the pending queue and returns its
  hash, which \<open>hash\<close> computes from the kind and the payload.
\<close>

definition enqueue ::
  "(nat \<Rightarrow> 'p \<Rightarrow> string) \<Rightarrow> ('i, 'p) engine \<Rightarrow> nat \<Rightarrow> 'i \<Rightarrow> 'p \<Rightarrow> string option
     \<Rightarrow> string \<times> ('i, 'p) engine" where
  "enqueue hash e k input payload x =
     (hash k payload,
      e\<lparr>pending := pending e @
          [\<lparr>kind_id = k, msg_tx_hash = hash k payload, signed_payload = payload,
            decoded_input = input, optional_external_tx_hash = x\<rparr>]\<rparr>)"

text \<open>
  Modelled from the spec: the receipt of one message. The system hands back a result
  and possibly an error, as the handler of the test does. Without an error the receipt
  holds the encoded result and no error; an error is captured into the receipt under
  its errors, and the receipt holds no result.
\<close>

definition receipt_of ::
  "(('i, 'p) message \<Rightarrow> 'o \<times> string option) \<Rightarrow> ('o \<Rightarrow> string) \<Rightarrow> ('i, 'p) message \<Rightarrow> receipt" where
  "receipt_of system encode m =
     (case system m of
        (out, None) \<Rightarrow>
          \<lparr>tx_hash = msg_tx_hash m, external_tx_hash = optional_external_tx_hash m,
           encoded_result = encode out, errors = []\<rparr>
      | (out, Some err) \<Rightarrow>
          \<lparr>tx_hash = msg_tx_hash m, external_tx_hash = optional_external_tx_hash m,
           encoded_result = [], errors = [err]\<rparr>)"

text \<open>
  Modelled from the spec: a tick (section 4.H) detaches the pending queue, runs the
  system on its messages in insertion order, and at commit publishes their receipts,
  evicts the receipts beyond the TTL and increments the tick counter.
\<close>

definition tick ::
  "(('i, 'p) message \<Rightarrow> 'o \<times> string option) \<Rightarrow> ('o \<Rightarrow> string) \<Rightarrow> nat \<Rightarrow> ('i, 'p) engine
     \<Rightarrow> ('i, 'p) engine" where
  "tick system encode ttl e =
     \<lparr>pending = [],
      receipts =
        evict ttl (current_tick e)
          (foldl (\<lambda>rs m. put (current_tick e) rs (msg_tx_hash m) (receipt_of system encode m))
             (receipts e) (pending e)),
      current_tick = current_tick e + 1\<rparr>"

text \<open>
  \<^verbatim>\<open>ConsumeEVMMsgResult\<close> on the engine: the receipt, if any, and the engine without it.
\<close>

definition ConsumeEVMMsgResult :: "('i, 'p) engine \<Rightarrow> string \<Rightarrow> receipt option \<times> ('i, 'p) engine" where
  "ConsumeEVMMsgResult e x =
     (case consume (receipts e) x of (r, rs) \<Rightarrow> (r, e\<lparr>receipts := rs\<rparr>))"

text \<open>
  The engine of \<^verbatim>\<open>TestEVMTxConsume\<close>: nothing pending, no receipt, tick 0; a hash of the
  messages, an encoding of the results of \<^verbatim>\<open>foo\<close> that is never empty, and the test
  itself: enqueue with the external hash \<^verbatim>\<open>0xFooBar\<close>, tick with a system that returns
  a result, consume twice; enqueue again, tick with a system that returns an error,
  consume twice. It yields what the four calls of \<^verbatim>\<open>ConsumeEVMMsgResult\<close> return.
\<close>

definition evm_engine0 :: "(nat, string) engine" where
  "evm_engine0 =
     \<lparr>pending = [], receipts = \<lparr>by_tx_hash = Map.empty, by_external_tx_hash = Map.empty\<rparr>,
      current_tick = 0\<rparr>"

definition foo_hash :: "nat \<Rightarrow> string \<Rightarrow> string" where
  "foo_hash k payload = ''tx:'' @ payload"

definition foo_encode :: "string \<Rightarrow> string" where
  "foo_encode y = ''Y:'' @ y"

definition evm_test :: "receipt option list" where
  "evm_test =
     (let e1 = snd (enqueue foo_hash evm_engine0 1 32 ''foo'' (Some ''0xFooBar''));
          e2 = tick (\<lambda>m. (''hi'', None)) foo_encode 10 e1;
          (r1, e3) = ConsumeEVMMsgResult e2 ''0xFooBar'';
          (r2, e4) = ConsumeEVMMsgResult e3 ''0xFooBar'';
          e5 = snd (enqueue foo_hash e4 1 32 ''foo'' (Some ''0xFooBar''));
          e6 = tick (\<lambda>m. ([], Some ''omg error'')) foo_encode 10 e5;
          (r3, e7) = ConsumeEVMMsgResult e6 ''0xFooBar'';
          (r4, e8) = ConsumeEVMMsgResult e7 ''0xFooBar''
      in [r1, r2, r3, r4])"

section \<open>Example worlds\<close>

definition example_store :: "int store" where
  "example_store =
     \<lparr>archs =
        [\<lparr>arch_comps = [''alpha''], arch_rows = []\<rparr>,
         \<lparr>arch_comps = [''beta''], arch_rows = [(7, [(''beta'', 70)])]\<rparr>,
         \<lparr>arch_comps = [''alpha'', ''beta''],
            arch_rows = [(2, [(''alpha'', 20), (''beta'', 21)]), (0, [(''alpha'', 1), (''beta'', 2)])]\<rparr>],
      next_id = 8\<rparr>"

definition example_world :: "int World" where
  "example_world =
     \<lparr>namespace = ''world'', registry = [(''alpha'', 0), (''beta'', 0), (''gamma'', 0)],
      StoreManager = example_store\<rparr>"

definition stale_search :: Search where
  "stale_search =
     \<lparr>archMatches = [''world'' \<mapsto> \<lparr>archetypes = [5], seen = 3\<rparr>], filter_f = Contains [''alpha'']\<rparr>"

section \<open>Lemmas\<close>

lemma index_where_None: "index_where P xs = None \<longleftrightarrow> (\<forall>x \<in> set xs. \<not> P x)"
  by (induction xs) auto

lemma SearchFrom_0: "SearchFrom sm f 0 = matching_archetypes sm f"
  by (simp add: SearchFrom_def matching_archetypes_def)

lemma filter_upt_split:
  "k \<le> n \<Longrightarrow> filter P [0 ..< k] @ filter P [k ..< n] = filter P [0 ..< n]"
  using upt_add_eq_append [of 0 k "n - k"] by (simp flip: filter_append)

lemma evaluateSearch_result:
  assumes "cache_ok q ns sm"
  shows "fst (evaluateSearch q ns sm) = matching_archetypes sm (filter_f q)"
proof (cases "archMatches q ns")
  case None
  then show ?thesis
    by (simp add: evaluateSearch_def SearchFrom_def matching_archetypes_def)
next
  case (Some c)
  with assms have "seen c \<le> length (archs sm)"
    and "archetypes c = filter (\<lambda>i. MatchesComponents (filter_f q) (arch_comps (archs sm ! i))) [0 ..< seen c]"
    by (simp_all add: cache_ok_def)
  with Some show ?thesis
    by (simp add: evaluateSearch_def SearchFrom_def matching_archetypes_def filter_upt_split)
qed

lemma evaluateSearch_filter_f: "filter_f (snd (evaluateSearch q ns sm)) = filter_f q"
  by (simp add: evaluateSearch_def Let_def split: option.splits)

lemma evaluateSearch_cache:
  "archMatches (snd (evaluateSearch q ns sm)) =
     (archMatches q)(ns \<mapsto> \<lparr>archetypes = fst (evaluateSearch q ns sm), seen = length (archs sm)\<rparr>)"
proof (cases "archMatches q ns")
  case None
  then show ?thesis by (simp add: evaluateSearch_def Let_def ArchetypeCount_def)
next
  case (Some c)
  then show ?thesis by (cases c) (simp add: evaluateSearch_def Let_def ArchetypeCount_def)
qed

lemma evaluateSearch_cache_ok:
  assumes "cache_ok q ns sm"
  shows "cache_ok (snd (evaluateSearch q ns sm)) ns sm"
  using evaluateSearch_result [OF assms]
  by (simp add: cache_ok_def evaluateSearch_cache evaluateSearch_filter_f matching_archetypes_def)

lemma evaluateSearch_cache_ok_other:
  assumes "cache_ok q ns' sm'" and "ns' \<noteq> ns"
  shows "cache_ok (snd (evaluateSearch q ns sm)) ns' sm'"
  using assms
  by (simp add: cache_ok_def evaluateSearch_cache evaluateSearch_filter_f split: option.splits)

lemma cache_ok_NewSearch: "cache_ok (NewSearch f) ns sm"
  by (simp add: cache_ok_def NewSearch_def)

lemma cache_ok_grow:
  assumes "cache_ok q ns sm" and "take (length (archs sm)) (comps_of sm') = comps_of sm"
  shows "cache_ok q ns sm'"
proof (cases "archMatches q ns")
  case None
  then show ?thesis by (simp add: cache_ok_def)
next
  case (Some c)
  from assms(2) have len: "length (archs sm) \<le> length (archs sm')"
    by (metis comps_of_def length_map length_take min.cobounded2 min.commute)
  have nth: "arch_comps (archs sm' ! i) = arch_comps (archs sm ! i)" if "i < length (archs sm)" for i
  proof -
    have "comps_of sm ! i = take (length (archs sm)) (comps_of sm') ! i"
      using assms(2) by simp
    also have "\<dots> = comps_of sm' ! i" using that by simp
    finally show ?thesis using that len by (simp add: comps_of_def)
  qed
  from assms(1) Some have s: "seen c \<le> length (archs sm)"
    and a: "archetypes c = filter (\<lambda>i. MatchesComponents (filter_f q) (arch_comps (archs sm ! i))) [0 ..< seen c]"
    by (simp_all add: cache_ok_def)
  have "filter (\<lambda>i. MatchesComponents (filter_f q) (arch_comps (archs sm ! i))) [0 ..< seen c]
      = filter (\<lambda>i. MatchesComponents (filter_f q) (arch_comps (archs sm' ! i))) [0 ..< seen c]"
    using s by (intro filter_cong) (auto simp: nth)
  with Some s a len show ?thesis by (simp add: cache_ok_def)
qed

lemma matching_archetypes_bound: "a \<in> set (matching_archetypes sm f) \<Longrightarrow> a < length (archs sm)"
  by (simp add: matching_archetypes_def)

lemma first_archetypes_valid:
  assumes "\<forall>a \<in> set result. a < length (archs sm)"
  shows "first_archetypes sm result =
     (case concat (map (\<lambda>i. map fst (arch_rows (archs sm ! i))) result) of
        [] \<Rightarrow> (BadID, None)
      | eid # rest \<Rightarrow> (eid, None))"
  using assms
proof (induction result)
  case Nil
  then show ?case by simp
next
  case (Cons a result)
  then show ?case
    by (cases "map fst (arch_rows (archs sm ! a))") (simp_all add: GetEntitiesForArchID_def)
qed

lemma first_archetypes_error:
  assumes "snd (first_archetypes sm result) = Some e"
  shows "\<exists>a \<in> set result. GetEntitiesForArchID sm a = Inl e"
  using assms
  by (induction result) (auto split: sum.splits list.splits)

lemma First_result:
  assumes "cache_ok q (namespace w) (StoreManager w)"
  shows "fst (First q w) =
     (case matching_entities (StoreManager w) (filter_f q) of
        [] \<Rightarrow> (BadID, None)
      | eid # rest \<Rightarrow> (eid, None))"
proof -
  have r: "fst (evaluateSearch q (namespace w) (StoreManager w)) = matching_archetypes (StoreManager w) (filter_f q)"
    using assms by (rule evaluateSearch_result)
  have "first_archetypes (StoreManager w) (matching_archetypes (StoreManager w) (filter_f q)) =
     (case matching_entities (StoreManager w) (filter_f q) of
        [] \<Rightarrow> (BadID, None)
      | eid # rest \<Rightarrow> (eid, None))"
    unfolding matching_entities_def
    by (rule first_archetypes_valid) (simp add: matching_archetypes_bound)
  moreover have "matching_archetypes (StoreManager w) (filter_f q) = [] \<Longrightarrow>
     matching_entities (StoreManager w) (filter_f q) = []"
    by (simp add: matching_entities_def)
  ultimately show ?thesis
    using r by (auto simp: First_def split: prod.splits)
qed

lemma First_error:
  assumes "snd (fst (First q w)) = Some e"
  shows "\<exists>a \<in> set (fst (evaluateSearch q (namespace w) (StoreManager w))).
           GetEntitiesForArchID (StoreManager w) a = Inl e"
  using assms first_archetypes_error [of "StoreManager w" "fst (evaluateSearch q (namespace w) (StoreManager w))" e]
  by (auto simp: First_def split: prod.splits if_splits)

lemma MustFirst_Panics:
  "fst (MustFirst q w) = Panics \<longleftrightarrow> (\<exists>e. snd (fst (First q w)) = Some e)"
  by (auto simp: MustFirst_def split: prod.splits option.splits)

lemma MustFirst_Returns:
  "snd (fst (First q w)) = None \<Longrightarrow> fst (MustFirst q w) = Returns (fst (fst (First q w)))"
  by (auto simp: MustFirst_def split: prod.splits option.splits)

lemma count_archetypes_valid:
  assumes "\<forall>a \<in> set result. a < length (archs sm)"
  shows "count_archetypes sm result ret =
     Inr (ret + length (concat (map (\<lambda>i. map fst (arch_rows (archs sm ! i))) result)))"
  using assms
  by (induction result arbitrary: ret) (simp_all add: GetEntitiesForArchID_def)

lemma Count_result:
  assumes "cache_ok q (namespace w) (StoreManager w)"
  shows "fst (Count q w) = Inr (length (matching_entities (StoreManager w) (filter_f q)))"
  using evaluateSearch_result [OF assms]
    count_archetypes_valid [of "matching_archetypes (StoreManager w) (filter_f q)" "StoreManager w" 0]
  by (auto simp: Count_def matching_entities_def matching_archetypes_bound split: prod.splits)

lemma grows_refl: "grows sm sm"
  by (simp add: grows_def comps_of_def)

lemma grows_length: "grows sm sm' \<Longrightarrow> length (archs sm) \<le> length (archs sm')"
  unfolding grows_def comps_of_def
  by (metis length_map length_take min.cobounded2 min.commute)

lemma grows_trans:
  assumes "grows sm sm1" and "grows sm1 sm2"
  shows "grows sm sm2"
proof -
  have "min (length (archs sm)) (length (archs sm1)) = length (archs sm)"
    using grows_length [OF assms(1)] by simp
  then have "take (length (archs sm)) (comps_of sm2) =
        take (length (archs sm)) (take (length (archs sm1)) (comps_of sm2))"
    by simp
  also have "\<dots> = take (length (archs sm)) (comps_of sm1)"
    using assms(2) by (simp only: grows_def)
  also have "\<dots> = comps_of sm"
    using assms(1) by (simp only: grows_def)
  finally show ?thesis by (simp only: grows_def)
qed

lemma map_update_same: "f x = f (xs ! a) \<Longrightarrow> map f (xs[a := x]) = map f xs"
  by (cases "a < length xs") (simp_all add: map_update list_update_same_conv list_update_beyond)

lemma comps_of_add_rows [simp]: "comps_of (add_rows sm a rows) = comps_of sm"
  by (simp add: comps_of_def add_rows_def map_update_same)

lemma comps_of_set_row_value [simp]: "comps_of (set_row_value sm a r c v) = comps_of sm"
  by (simp add: comps_of_def set_row_value_def Let_def map_update_same)

lemma comps_of_remove_row [simp]: "comps_of (remove_row sm a r) = comps_of sm"
  by (simp add: comps_of_def remove_row_def map_update_same)

lemma length_archs_comps_of: "length (archs sm) = length (comps_of sm)"
  by (simp add: comps_of_def)

lemma grows_same_comps: "comps_of sm' = comps_of sm \<Longrightarrow> grows sm sm'"
  by (simp add: grows_def length_archs_comps_of)

lemma grows_archetype_for: "grows sm (snd (archetype_for sm cs))"
  by (simp add: archetype_for_def grows_def comps_of_def split: option.splits)

lemma grows_move_entity: "grows sm (move_entity sm a r cs added)"
proof -
  have "grows (remove_row sm a r) (snd (archetype_for (remove_row sm a r) cs))"
    by (rule grows_archetype_for)
  moreover have "grows sm (remove_row sm a r)"
    by (simp add: grows_same_comps)
  ultimately have "grows sm (snd (archetype_for (remove_row sm a r) cs))"
    using grows_trans by blast
  then show ?thesis
    by (cases "archetype_for (remove_row sm a r) cs") (simp add: move_entity_def Let_def grows_def)
qed

lemma grows_apply_op: "grows sm (apply_op op sm)"
proof (cases op)
  case (OpCreateMany num comps)
  have "grows sm (snd (archetype_for sm (map Name comps)))"
    by (rule grows_archetype_for)
  moreover have "comps_of (sm1\<lparr>next_id := n\<rparr>) = comps_of sm1" for sm1 :: "'a store" and n
    by (simp add: comps_of_def)
  ultimately show ?thesis
    using OpCreateMany
    by (cases "archetype_for sm (map Name comps)") (simp add: CreateManyEntities_def Let_def grows_def)
next
  case (OpSetComponent c eid v)
  then show ?thesis
    by (auto simp: SetComponentForEntity_def grows_refl grows_same_comps split: option.splits)
next
  case (OpRemove eid)
  then show ?thesis
    by (auto simp: RemoveEntity_def grows_refl grows_same_comps split: option.splits)
next
  case (OpAddComponent c eid)
  then show ?thesis
    by (auto simp: AddComponentToEntity_def grows_refl grows_move_entity split: option.splits)
next
  case (OpRemoveComponent c eid)
  then show ?thesis
    by (auto simp: RemoveComponentFromEntity_def grows_refl grows_move_entity split: option.splits)
qed

lemma cache_ok_grows: "cache_ok q ns sm \<Longrightarrow> grows sm sm' \<Longrightarrow> cache_ok q ns sm'"
  using cache_ok_grow by (simp add: grows_def)

lemma run_events_invariant:
  assumes "\<forall>ns. cache_ok q ns (worlds ns)"
  shows "(\<forall>ns. cache_ok (fst (run_events es (q, worlds))) ns (snd (run_events es (q, worlds)) ns))
       \<and> filter_f (fst (run_events es (q, worlds))) = filter_f q"
  using assms
proof (induction es arbitrary: q worlds)
  case Nil
  then show ?case by simp
next
  case (Cons ev es)
  show ?case
  proof (cases ev)
    case (Mutate ns op)
    have *: "\<forall>ns'. cache_ok q ns' ((worlds(ns := apply_op op (worlds ns))) ns')"
      using Cons.prems by (auto intro: cache_ok_grows grows_apply_op)
    show ?thesis
      unfolding Mutate run_events.simps
      by (rule Cons.IH [of q "worlds(ns := apply_op op (worlds ns))", OF *])
  next
    case (Evaluate ns)
    have "\<forall>ns'. cache_ok (snd (evaluateSearch q ns (worlds ns))) ns' (worlds ns')"
      using Cons.prems evaluateSearch_cache_ok evaluateSearch_cache_ok_other
      by metis
    from Cons.IH [of "snd (evaluateSearch q ns (worlds ns))" worlds] this Evaluate
    show ?thesis
      by (simp add: evaluateSearch_filter_f)
  qed
qed

lemma Each_result_only:
  assumes "fst (evaluateSearch q (namespace (fst s)) (StoreManager (fst s)))
         = fst (evaluateSearch q' (namespace (fst s)) (StoreManager (fst s)))"
  shows "fst (Each q callback s) = fst (Each q' callback s)
       \<and> snd (snd (Each q callback s)) = snd (snd (Each q' callback s))"
  using assms by (simp add: Each_def case_prod_beta)

lemma index_where_map: "index_where P (map f xs) = index_where (\<lambda>x. P (f x)) xs"
  by (induction xs) simp_all

lemma index_where_Some_iff:
  "index_where P xs = Some i \<longleftrightarrow> i < length xs \<and> P (xs ! i) \<and> (\<forall>j < i. \<not> P (xs ! j))"
proof (induction xs arbitrary: i)
  case Nil
  then show ?case by simp
next
  case (Cons x xs)
  show ?case
  proof (cases "P x")
    case True
    then show ?thesis by (cases i) auto
  next
    case False
    show ?thesis
    proof (cases i)
      case 0
      with False show ?thesis by auto
    next
      case (Suc k)
      have "(\<forall>j < Suc k. \<not> P ((x # xs) ! j)) \<longleftrightarrow> (\<forall>j < k. \<not> P (xs ! j))"
        using False by (auto simp: less_Suc_eq_0_disj)
      with False Suc Cons.IH [of k] show ?thesis by auto
    qed
  qed
qed

lemma length_layout [simp]: "length (layout sm) = length (archs sm)"
  by (simp add: layout_def)

lemma nth_layout: "a < length (archs sm) \<Longrightarrow> layout sm ! a = map fst (arch_rows (archs sm ! a))"
  by (simp add: layout_def)

lemma nth_comps_of: "a < length (archs sm) \<Longrightarrow> comps_of sm ! a = arch_comps (archs sm ! a)"
  by (simp add: comps_of_def)

lemma entity_loc_layout: "entity_loc sm eid = loc_in (layout sm) eid"
proof (cases "index_where (\<lambda>a. eid \<in> set (map fst (arch_rows a))) (archs sm)")
  case None
  then show ?thesis
    by (simp add: entity_loc_def loc_in_def layout_def index_where_map)
next
  case (Some a)
  then have "a < length (archs sm)"
    by (simp add: index_where_Some_iff)
  then have "index_where (\<lambda>x. x = eid) (layout sm ! a) = index_where (\<lambda>row. fst row = eid) (arch_rows (archs sm ! a))"
    by (simp add: nth_layout index_where_map)
  with Some show ?thesis
    by (simp add: entity_loc_def loc_in_def layout_def [of sm] index_where_map)
qed

lemma loc_in_SomeD:
  assumes "loc_in ls eid = Some (a, r)"
  shows "a < length ls \<and> r < length (ls ! a) \<and> ls ! a ! r = eid"
  using assms
  by (auto simp: loc_in_def index_where_Some_iff split: option.splits)

lemma loc_in_SomeI:
  assumes "a < length ls" and "r < length (ls ! a)" and "ls ! a ! r = eid"
    and "\<forall>j < a. eid \<notin> set (ls ! j)" and "\<forall>j < r. ls ! a ! j \<noteq> eid"
  shows "loc_in ls eid = Some (a, r)"
proof -
  have "index_where (\<lambda>l. eid \<in> set l) ls = Some a"
    using assms by (auto simp: index_where_Some_iff)
  moreover have "index_where (\<lambda>x. x = eid) (ls ! a) = Some r"
    using assms by (auto simp: index_where_Some_iff)
  ultimately show ?thesis by (simp add: loc_in_def)
qed

lemma loc_in_None: "eid \<notin> set (concat ls) \<Longrightarrow> loc_in ls eid = None"
proof -
  assume "eid \<notin> set (concat ls)"
  then have "index_where (\<lambda>l. eid \<in> set l) ls = None"
    by (simp add: index_where_None)
  then show ?thesis by (simp add: loc_in_def)
qed

lemma loc_in_member: "loc_in ls eid = Some (a, r) \<Longrightarrow> eid \<in> set (ls ! a)"
  using loc_in_SomeD nth_mem by metis

lemma entity_loc_SomeD:
  assumes "entity_loc sm eid = Some (a, r)"
  shows "a < length (archs sm) \<and> r < length (arch_rows (archs sm ! a)) \<and> fst (arch_rows (archs sm ! a) ! r) = eid"
  using loc_in_SomeD [of "layout sm" eid a r] assms
  by (auto simp: entity_loc_layout nth_layout)

lemma layout_set_row_value:
  assumes "a < length (archs sm)" and "r < length (arch_rows (archs sm ! a))"
  shows "layout (set_row_value sm a r c v) = layout sm"
proof -
  have "map fst ((arch_rows (archs sm ! a))[r := (fst (arch_rows (archs sm ! a) ! r), x)]) = map fst (arch_rows (archs sm ! a))" for x
    using assms(2) by (simp add: map_update list_update_same_conv)
  then show ?thesis
    by (simp add: layout_def set_row_value_def Let_def map_update_same)
qed

lemma next_id_set_row_value [simp]: "next_id (set_row_value sm a r c v) = next_id sm"
  by (simp add: set_row_value_def Let_def)

lemma vals_at_set_row_value:
  assumes "a < length (archs sm)" and "r < length (arch_rows (archs sm ! a))"
  shows "vals_at (set_row_value sm a r c v) a' r' =
     (if a' = a \<and> r' = r then set_value c v (vals_at sm a r) else vals_at sm a' r')"
  using assms
  by (auto simp: vals_at_def set_row_value_def Let_def nth_list_update)

lemma map_of_set_value: "map_of (set_value c v ps) = (map_of ps)(c \<mapsto> v)"
  by (induction ps) (auto simp: fun_eq_iff)

lemma archetype_for_props:
  assumes "archetype_for sm cs = (a, sm1)"
  shows "a < length (archs sm1)" and "set (arch_comps (archs sm1 ! a)) = set cs"
    and "next_id sm1 = next_id sm" and "concat (layout sm1) = concat (layout sm)"
    and "length (archs sm) \<le> length (archs sm1)"
    and "take (length (archs sm)) (layout sm1) = layout sm"
    and "take (length (archs sm)) (comps_of sm1) = comps_of sm"
proof -
  show "a < length (archs sm1)" and "set (arch_comps (archs sm1 ! a)) = set cs"
    and "next_id sm1 = next_id sm" and "concat (layout sm1) = concat (layout sm)"
    and "length (archs sm) \<le> length (archs sm1)"
    and "take (length (archs sm)) (layout sm1) = layout sm"
    and "take (length (archs sm)) (comps_of sm1) = comps_of sm"
    using assms
    by (auto simp: archetype_for_def index_where_Some_iff layout_def comps_of_def
        split: option.splits)
qed

lemma layout_add_rows:
  assumes "a < length (archs sm)"
  shows "layout (add_rows sm a rows) = (layout sm)[a := layout sm ! a @ map fst rows]"
  using assms by (simp add: layout_def add_rows_def map_update)

lemma length_archs_add_rows [simp]: "length (archs (add_rows sm a rows)) = length (archs sm)"
  by (simp add: add_rows_def)

lemma vals_at_add_rows_new:
  assumes "a < length (archs sm)" and "i < length rows"
  shows "vals_at (add_rows sm a rows) a (length (arch_rows (archs sm ! a)) + i) = snd (rows ! i)"
  using assms by (simp add: vals_at_def add_rows_def nth_append)

lemma concat_update_append:
  assumes "a < length ls"
  shows "set (concat (ls[a := ls ! a @ ids])) = set (concat ls) \<union> set ids"
    and "distinct (concat ls) \<Longrightarrow> distinct ids \<Longrightarrow> set ids \<inter> set (concat ls) = {}
         \<Longrightarrow> distinct (concat (ls[a := ls ! a @ ids]))"
proof -
  have l: "ls = take a ls @ ls ! a # drop (Suc a) ls"
    using assms by (rule id_take_nth_drop)
  have u: "ls[a := ls ! a @ ids] = take a ls @ (ls ! a @ ids) # drop (Suc a) ls"
    using assms by (rule upd_conv_take_nth_drop)
  have c: "concat ls = concat (take a ls) @ ls ! a @ concat (drop (Suc a) ls)"
    by (subst l) simp
  show "set (concat (ls[a := ls ! a @ ids])) = set (concat ls) \<union> set ids"
    by (subst u, subst (3) l) auto
  assume "distinct (concat ls)" and "distinct ids" and "set ids \<inter> set (concat ls) = {}"
  then show "distinct (concat (ls[a := ls ! a @ ids]))"
    unfolding u c by auto
qed

lemma loc_in_append_new:
  assumes "a < length ls" and "set ids \<inter> set (concat ls) = {}" and "distinct ids" and "i < length ids"
  shows "loc_in (ls[a := ls ! a @ ids]) (ids ! i) = Some (a, length (ls ! a) + i)"
proof (rule loc_in_SomeI)
  have fresh: "ids ! i \<notin> set l" if "l \<in> set ls" for l
    using assms(2,4) that by (auto dest: nth_mem)
  show "a < length (ls[a := ls ! a @ ids])" using assms by simp
  show "length (ls ! a) + i < length (ls[a := ls ! a @ ids] ! a)" using assms by simp
  show "ls[a := ls ! a @ ids] ! a ! (length (ls ! a) + i) = ids ! i" using assms by simp
  show "\<forall>j<a. ids ! i \<notin> set (ls[a := ls ! a @ ids] ! j)"
    using assms(1) fresh by auto
  show "\<forall>j<length (ls ! a) + i. ls[a := ls ! a @ ids] ! a ! j \<noteq> ids ! i"
  proof (intro allI impI)
    fix j assume j: "j < length (ls ! a) + i"
    show "ls[a := ls ! a @ ids] ! a ! j \<noteq> ids ! i"
    proof (cases "j < length (ls ! a)")
      case True
      then have "ls ! a ! j \<in> set (ls ! a)" by simp
      moreover have "ids ! i \<notin> set (ls ! a)" using fresh assms(1) by simp
      ultimately have "ls ! a ! j \<noteq> ids ! i" by auto
      then show ?thesis using assms(1) True by (simp add: nth_append)
    next
      case False
      then have "j - length (ls ! a) < i" using j by simp
      then have "ids ! (j - length (ls ! a)) \<noteq> ids ! i"
        using assms(3,4) by (simp add: nth_eq_iff_index_eq)
      then show ?thesis using assms(1) False by (simp add: nth_append)
    qed
  qed
qed

lemma loc_in_append_old:
  assumes "a < length ls" and "eid \<notin> set ids"
  shows "loc_in (ls[a := ls ! a @ ids]) eid = loc_in ls eid"
proof -
  have m: "(eid \<in> set (ls[a := ls ! a @ ids] ! j)) = (eid \<in> set (ls ! j))" for j
    using assms by (cases "j = a") auto
  have 1: "index_where (\<lambda>l. eid \<in> set l) (ls[a := ls ! a @ ids]) = index_where (\<lambda>l. eid \<in> set l) ls"
  proof (cases "index_where (\<lambda>l. eid \<in> set l) ls")
    case None
    then have "\<forall>j < length ls. eid \<notin> set (ls ! j)"
      by (simp add: index_where_None)
    then have "\<forall>l \<in> set (ls[a := ls ! a @ ids]). eid \<notin> set l"
      using m by (metis in_set_conv_nth length_list_update)
    then have "index_where (\<lambda>l. eid \<in> set l) (ls[a := ls ! a @ ids]) = None"
      by (simp add: index_where_None)
    then show ?thesis using None by simp
  next
    case (Some b)
    then have "index_where (\<lambda>l. eid \<in> set l) (ls[a := ls ! a @ ids]) = Some b"
      using m by (simp add: index_where_Some_iff)
    then show ?thesis using Some by simp
  qed
  have 2: "index_where (\<lambda>x. x = eid) (ls[a := ls ! a @ ids] ! b) = index_where (\<lambda>x. x = eid) (ls ! b)"
    if "b < length ls" for b
  proof (cases "b = a")
    case True
    have "index_where (\<lambda>x. x = eid) (xs @ ids) = index_where (\<lambda>x. x = eid) xs" for xs
      using assms(2) by (induction xs) (auto simp: index_where_None)
    then show ?thesis using True assms(1) by simp
  next
    case False
    then show ?thesis by simp
  qed
  show ?thesis
  proof (cases "index_where (\<lambda>l. eid \<in> set l) ls")
    case None
    then show ?thesis by (simp add: loc_in_def 1)
  next
    case (Some b)
    then have "b < length ls" by (simp add: index_where_Some_iff)
    then show ?thesis using Some by (simp add: loc_in_def 1 2)
  qed
qed

lemma same_shape_refl: "same_shape sm sm"
  by (simp add: same_shape_def)

lemma same_shape_trans: "same_shape sm sm1 \<Longrightarrow> same_shape sm1 sm2 \<Longrightarrow> same_shape sm sm2"
  by (simp add: same_shape_def)

lemma same_shape_entity_loc: "same_shape sm sm' \<Longrightarrow> entity_loc sm' eid = entity_loc sm eid"
  by (simp add: same_shape_def entity_loc_layout)

lemma same_shape_length: "same_shape sm sm' \<Longrightarrow> length (archs sm') = length (archs sm)"
  by (metis length_layout same_shape_def)

lemma SetComponentForEntity_ok:
  assumes "entity_loc sm eid = Some (a, r)" and "Name c \<in> set (comps_of sm ! a)"
  shows "SetComponentForEntity sm c eid v = Inr (set_row_value sm a r (Name c) v)"
    and "same_shape sm (set_row_value sm a r (Name c) v)"
    and "vals_at (set_row_value sm a r (Name c) v) a' r' =
           (if a' = a \<and> r' = r then set_value (Name c) v (vals_at sm a r) else vals_at sm a' r')"
proof -
  from entity_loc_SomeD [OF assms(1)]
  have a: "a < length (archs sm)" and r: "r < length (arch_rows (archs sm ! a))"
    by simp_all
  show "SetComponentForEntity sm c eid v = Inr (set_row_value sm a r (Name c) v)"
    using assms a by (simp add: SetComponentForEntity_def nth_comps_of)
  show "same_shape sm (set_row_value sm a r (Name c) v)"
    using a r by (simp add: same_shape_def layout_set_row_value)
  show "vals_at (set_row_value sm a r (Name c) v) a' r' =
           (if a' = a \<and> r' = r then set_value (Name c) v (vals_at sm a r) else vals_at sm a' r')"
    using a r by (rule vals_at_set_row_value)
qed

lemma set_components_ok:
  assumes "entity_loc (StoreManager w) eid = Some (a, r)"
    and "\<forall>comp' \<in> set components.
           Name comp' \<in> set (comps_of (StoreManager w) ! a) \<and> map_of (registry w) (Name comp') \<noteq> None"
  shows "\<exists>w'. set_components w eid components = (None, w')
           \<and> namespace w' = namespace w \<and> registry w' = registry w
           \<and> same_shape (StoreManager w) (StoreManager w')
           \<and> (\<forall>a' r'. vals_at (StoreManager w') a' r' =
                 (if a' = a \<and> r' = r then set_all components (vals_at (StoreManager w) a r)
                  else vals_at (StoreManager w) a' r'))"
  using assms
proof (induction components arbitrary: w)
  case Nil
  then show ?case by (simp add: same_shape_refl set_all_def)
next
  case (Cons comp' components)
  obtain z where z: "map_of (registry w) (Name comp') = Some z"
    using Cons.prems(2) by auto
  let ?c = "(Name comp', z)"
  let ?sm1 = "set_row_value (StoreManager w) a r (Name comp') (snd comp')"
  let ?w1 = "w\<lparr>StoreManager := ?sm1\<rparr>"
  have mem: "Name ?c \<in> set (comps_of (StoreManager w) ! a)"
    using Cons.prems(2) by simp
  note ok = SetComponentForEntity_ok [OF Cons.prems(1) mem, of "snd comp'"]
  have loc1: "entity_loc (StoreManager ?w1) eid = Some (a, r)"
    using ok(2) Cons.prems(1) by (simp add: same_shape_entity_loc)
  have reg1: "\<forall>comp' \<in> set components.
           Name comp' \<in> set (comps_of (StoreManager ?w1) ! a) \<and> map_of (registry ?w1) (Name comp') \<noteq> None"
    using Cons.prems(2) ok(2) by (simp add: same_shape_def)
  from Cons.IH [OF loc1 reg1] obtain w' where w':
    "set_components ?w1 eid components = (None, w')"
    "namespace w' = namespace w" "registry w' = registry w"
    "same_shape ?sm1 (StoreManager w')"
    "\<forall>a' r'. vals_at (StoreManager w') a' r' =
                 (if a' = a \<and> r' = r then set_all components (vals_at ?sm1 a r)
                  else vals_at ?sm1 a' r')"
    by auto
  have "set_components w eid (comp' # components) = (None, w')"
    using z ok(1) w'(1) by (simp add: GetComponentByName_def)
  moreover have "same_shape (StoreManager w) (StoreManager w')"
    using ok(2) w'(4) same_shape_trans by fastforce
  moreover have "\<forall>a' r'. vals_at (StoreManager w') a' r' =
                 (if a' = a \<and> r' = r then set_all (comp' # components) (vals_at (StoreManager w) a r)
                  else vals_at (StoreManager w) a' r')"
    using w'(5) ok(3) by (simp add: set_all_def)
  ultimately show ?case using w'(2,3) by blast
qed

lemma set_entities_ok:
  assumes "distinct entityIds"
    and "\<forall>eid \<in> set entityIds. \<exists>r. entity_loc (StoreManager w) eid = Some (a, r)"
    and "\<forall>comp' \<in> set components.
           Name comp' \<in> set (comps_of (StoreManager w) ! a) \<and> map_of (registry w) (Name comp') \<noteq> None"
  shows "\<exists>w'. set_entities w entityIds components = (None, w')
           \<and> namespace w' = namespace w \<and> registry w' = registry w
           \<and> same_shape (StoreManager w) (StoreManager w')
           \<and> (\<forall>a' r'. vals_at (StoreManager w') a' r' =
                 (if \<exists>eid \<in> set entityIds. entity_loc (StoreManager w) eid = Some (a', r')
                  then set_all components (vals_at (StoreManager w) a' r')
                  else vals_at (StoreManager w) a' r'))"
  using assms
proof (induction entityIds arbitrary: w)
  case Nil
  then show ?case by (simp add: same_shape_refl)
next
  case (Cons eid entityIds)
  obtain r where r: "entity_loc (StoreManager w) eid = Some (a, r)"
    using Cons.prems(2) by auto
  from set_components_ok [OF r Cons.prems(3)] obtain w1 where w1:
    "set_components w eid components = (None, w1)"
    "namespace w1 = namespace w" "registry w1 = registry w"
    "same_shape (StoreManager w) (StoreManager w1)"
    "\<forall>a' r'. vals_at (StoreManager w1) a' r' =
                 (if a' = a \<and> r' = r then set_all components (vals_at (StoreManager w) a r)
                  else vals_at (StoreManager w) a' r')"
    by auto
  have loc: "entity_loc (StoreManager w1) e = entity_loc (StoreManager w) e" for e
    using w1(4) by (rule same_shape_entity_loc)
  have p2: "\<forall>eid \<in> set entityIds. \<exists>r. entity_loc (StoreManager w1) eid = Some (a, r)"
    using Cons.prems(2) by (simp add: loc)
  have p3: "\<forall>comp' \<in> set components.
           Name comp' \<in> set (comps_of (StoreManager w1) ! a) \<and> map_of (registry w1) (Name comp') \<noteq> None"
    using Cons.prems(3) w1(3,4) by (simp add: same_shape_def)
  from Cons.prems(1) have d: "distinct entityIds" and ne: "eid \<notin> set entityIds"
    by simp_all
  from Cons.IH [OF d p2 p3] obtain w' where w':
    "set_entities w1 entityIds components = (None, w')"
    "namespace w' = namespace w1" "registry w' = registry w1"
    "same_shape (StoreManager w1) (StoreManager w')"
    "\<forall>a' r'. vals_at (StoreManager w') a' r' =
                 (if \<exists>e \<in> set entityIds. entity_loc (StoreManager w1) e = Some (a', r')
                  then set_all components (vals_at (StoreManager w1) a' r')
                  else vals_at (StoreManager w1) a' r')"
    by auto
  have other: "\<not> (\<exists>e \<in> set entityIds. entity_loc (StoreManager w) e = Some (a, r))"
  proof
    assume "\<exists>e \<in> set entityIds. entity_loc (StoreManager w) e = Some (a, r)"
    then obtain e where e: "e \<in> set entityIds" "entity_loc (StoreManager w) e = Some (a, r)"
      by auto
    from entity_loc_SomeD [OF e(2)] entity_loc_SomeD [OF r] have "e = eid" by simp
    with e(1) ne show False by simp
  qed
  have "set_entities w (eid # entityIds) components = (None, w')"
    using w1(1) w'(1) by simp
  moreover have "same_shape (StoreManager w) (StoreManager w')"
    using w1(4) w'(4) by (rule same_shape_trans)
  moreover have "vals_at (StoreManager w') a' r' =
                 (if \<exists>e \<in> set (eid # entityIds). entity_loc (StoreManager w) e = Some (a', r')
                  then set_all components (vals_at (StoreManager w) a' r')
                  else vals_at (StoreManager w) a' r')" for a' r'
  proof (cases "a' = a \<and> r' = r")
    case True
    then show ?thesis using w'(5) w1(5) other r by (simp add: loc)
  next
    case False
    then have "entity_loc (StoreManager w) eid \<noteq> Some (a', r')" using r by auto
    moreover have "vals_at (StoreManager w1) a' r' = vals_at (StoreManager w) a' r'"
      using w1(5) False by auto
    ultimately show ?thesis using w'(5) by (simp add: loc)
  qed
  ultimately show ?case using w1(2,3) w'(2,3) by auto
qed

lemma collect_metadata_ok:
  assumes "\<forall>comp' \<in> set components. map_of (registry w) (Name comp') \<noteq> None"
  shows "\<exists>acc. collect_metadata w components = Inr acc \<and> map Name acc = map Name components"
  using assms
  by (induction components) (auto simp: GetComponentByName_def)

lemma layout_next_id_update [simp]: "layout (sm\<lparr>next_id := n\<rparr>) = layout sm"
  by (simp add: layout_def)

lemma comps_of_next_id_update [simp]: "comps_of (sm\<lparr>next_id := n\<rparr>) = comps_of sm"
  by (simp add: comps_of_def)

lemma vals_at_next_id_update [simp]: "vals_at (sm\<lparr>next_id := n\<rparr>) a r = vals_at sm a r"
  by (simp add: vals_at_def)

lemma wf_store_same_shape: "wf_store sm \<Longrightarrow> same_shape sm sm' \<Longrightarrow> wf_store sm'"
  by (simp add: wf_store_def same_shape_def)

lemma CreateManyEntities_props:
  assumes wf: "wf_store sm" and af: "archetype_for sm (map Name comps) = (a, sm1)"
  shows "\<exists>sm'. CreateManyEntities sm num comps = Inr ([next_id sm ..< next_id sm + num], sm')
     \<and> layout sm' = (layout sm1)[a := layout sm1 ! a @ [next_id sm ..< next_id sm + num]]
     \<and> comps_of sm' = comps_of sm1 \<and> next_id sm' = next_id sm + num \<and> wf_store sm'
     \<and> (\<forall>i < num. entity_loc sm' (next_id sm + i) = Some (a, length (layout sm1 ! a) + i)
                   \<and> vals_at sm' a (length (layout sm1 ! a) + i) = comps)"
proof -
  let ?ids = "[next_id sm ..< next_id sm + num]"
  let ?rows = "map (\<lambda>eid. (eid, comps)) ?ids"
  let ?sm' = "(add_rows sm1 a ?rows)\<lparr>next_id := next_id sm + num\<rparr>"
  note p = archetype_for_props [OF af]
  have a: "a < length (layout sm1)" using p(1) by simp
  have c: "CreateManyEntities sm num comps = Inr (?ids, ?sm')"
    using af by (simp add: CreateManyEntities_def Let_def)
  have mf: "map fst ?rows = ?ids"
    by (simp add: comp_def)
  have l: "layout ?sm' = (layout sm1)[a := layout sm1 ! a @ ?ids]"
    using p(1) by (simp add: layout_add_rows mf del: map_map)
  then have l0: "layout (add_rows sm1 a ?rows) = (layout sm1)[a := layout sm1 ! a @ ?ids]"
    by simp
  have old: "\<forall>eid \<in> set (concat (layout sm1)). eid < next_id sm"
    using wf p(4) by (simp add: wf_store_def list_all_iff)
  then have fresh: "set ?ids \<inter> set (concat (layout sm1)) = {}"
    by fastforce
  have d: "distinct (concat (layout sm1))"
    using wf p(4) by (simp add: wf_store_def)
  have w: "wf_store ?sm'"
  proof -
    have "distinct (concat ((layout sm1)[a := layout sm1 ! a @ ?ids]))"
      using concat_update_append(2) [OF a d _ fresh] by simp
    moreover have "\<forall>eid \<in> set (concat ((layout sm1)[a := layout sm1 ! a @ ?ids])). eid < next_id sm + num"
      unfolding concat_update_append(1) [OF a] using old by fastforce
    ultimately show ?thesis
      using l0 by (simp add: wf_store_def list_all_iff)
  qed
  have "entity_loc ?sm' (next_id sm + i) = Some (a, length (layout sm1 ! a) + i)
        \<and> vals_at ?sm' a (length (layout sm1 ! a) + i) = comps" if i: "i < num" for i
  proof -
    have "loc_in ((layout sm1)[a := layout sm1 ! a @ ?ids]) (?ids ! i) = Some (a, length (layout sm1 ! a) + i)"
      using a fresh i by (intro loc_in_append_new) simp_all
    then have "entity_loc ?sm' (next_id sm + i) = Some (a, length (layout sm1 ! a) + i)"
      using i by (simp add: entity_loc_layout l0)
    moreover have "vals_at (add_rows sm1 a ?rows) a (length (arch_rows (archs sm1 ! a)) + i) = snd (?rows ! i)"
      using p(1) i by (intro vals_at_add_rows_new) simp_all
    then have "vals_at ?sm' a (length (layout sm1 ! a) + i) = comps"
      using i p(1) by (simp add: nth_layout)
    ultimately show ?thesis by simp
  qed
  with c l w show ?thesis by auto
qed

lemma map_of_set_all: "map_of (set_all components vals) = map_of vals ++ map_of (rev components)"
proof (induction components arbitrary: vals)
  case Nil
  then show ?case by (simp add: set_all_def)
next
  case (Cons comp' components)
  have "set_all (comp' # components) vals = set_all components (set_value (Name comp') (snd comp') vals)"
    by (simp add: set_all_def)
  then show ?case
    by (cases comp') (auto simp: Cons.IH map_of_set_value map_add_def fun_eq_iff split: option.splits)
qed

lemma CreateMany_ok:
  assumes ro: "\<not> IsReadOnly wCtx"
    and wf: "wf_store (StoreManager (GetWorld wCtx))"
    and reg: "\<forall>comp' \<in> set components. map_of (registry (GetWorld wCtx)) (Name comp') \<noteq> None"
    and af: "archetype_for (StoreManager (GetWorld wCtx)) (map Name components) = (a, sm1)"
  shows "\<exists>w'. CreateMany wCtx num components =
            (Inr [next_id (StoreManager (GetWorld wCtx)) ..< next_id (StoreManager (GetWorld wCtx)) + num], w')
     \<and> namespace w' = namespace (GetWorld wCtx) \<and> registry w' = registry (GetWorld wCtx)
     \<and> layout (StoreManager w') =
          (layout sm1)[a := layout sm1 ! a @ [next_id (StoreManager (GetWorld wCtx)) ..< next_id (StoreManager (GetWorld wCtx)) + num]]
     \<and> comps_of (StoreManager w') = comps_of sm1
     \<and> next_id (StoreManager w') = next_id (StoreManager (GetWorld wCtx)) + num
     \<and> wf_store (StoreManager w')
     \<and> (\<forall>i < num. \<exists>acc. map Name acc = map Name components
           \<and> entity_loc (StoreManager w') (next_id (StoreManager (GetWorld wCtx)) + i) = Some (a, length (layout sm1 ! a) + i)
           \<and> vals_at (StoreManager w') a (length (layout sm1 ! a) + i) = set_all components acc)"
proof -
  let ?w = "GetWorld wCtx"
  let ?sm = "StoreManager ?w"
  let ?ids = "[next_id ?sm ..< next_id ?sm + num]"
  let ?k = "length (layout sm1 ! a)"
  from collect_metadata_ok [OF reg] obtain acc where
    acc: "collect_metadata ?w components = Inr acc" "map Name acc = map Name components"
    by auto
  from af acc(2) have af': "archetype_for ?sm (map Name acc) = (a, sm1)" by simp
  note p = archetype_for_props [OF af]
  from CreateManyEntities_props [OF wf af', of num] obtain sm2 where sm2:
    "CreateManyEntities ?sm num acc = Inr (?ids, sm2)"
    "layout sm2 = (layout sm1)[a := layout sm1 ! a @ ?ids]"
    "comps_of sm2 = comps_of sm1" "next_id sm2 = next_id ?sm + num" "wf_store sm2"
    "\<forall>i < num. entity_loc sm2 (next_id ?sm + i) = Some (a, ?k + i) \<and> vals_at sm2 a (?k + i) = acc"
    by auto
  let ?w2 = "?w\<lparr>StoreManager := sm2\<rparr>"
  have locs: "\<forall>eid \<in> set ?ids. \<exists>r. entity_loc (StoreManager ?w2) eid = Some (a, r)"
  proof
    fix eid assume "eid \<in> set ?ids"
    then obtain i where "i < num" "eid = next_id ?sm + i"
      by (auto simp: nat_le_iff_add)
    then show "\<exists>r. entity_loc (StoreManager ?w2) eid = Some (a, r)"
      using sm2(6) by auto
  qed
  have "comps_of sm2 ! a = arch_comps (archs sm1 ! a)"
    using sm2(3) p(1) by (simp add: nth_comps_of)
  then have mem: "\<forall>comp' \<in> set components.
           Name comp' \<in> set (comps_of (StoreManager ?w2) ! a) \<and> map_of (registry ?w2) (Name comp') \<noteq> None"
    using reg p(2) by auto
  from set_entities_ok [OF _ locs mem] obtain w' where w':
    "set_entities ?w2 ?ids components = (None, w')"
    "namespace w' = namespace ?w2" "registry w' = registry ?w2"
    "same_shape (StoreManager ?w2) (StoreManager w')"
    "\<forall>a' r'. vals_at (StoreManager w') a' r' =
                 (if \<exists>eid \<in> set ?ids. entity_loc (StoreManager ?w2) eid = Some (a', r')
                  then set_all components (vals_at (StoreManager ?w2) a' r')
                  else vals_at (StoreManager ?w2) a' r')"
    by auto
  have cm: "CreateMany wCtx num components = (Inr ?ids, w')"
    using ro acc(1) sm2(1) w'(1) by (simp add: CreateMany_def Let_def)
  have sh: "layout (StoreManager w') = layout sm2" "comps_of (StoreManager w') = comps_of sm2"
    "next_id (StoreManager w') = next_id sm2"
    using w'(4) by (simp_all add: same_shape_def)
  have wf': "wf_store (StoreManager w')"
    using sm2(5) w'(4) wf_store_same_shape by fastforce
  have vals: "\<exists>acc. map Name acc = map Name components
           \<and> entity_loc (StoreManager w') (next_id ?sm + i) = Some (a, ?k + i)
           \<and> vals_at (StoreManager w') a (?k + i) = set_all components acc" if i: "i < num" for i
  proof -
    have e: "entity_loc sm2 (next_id ?sm + i) = Some (a, ?k + i)" and v: "vals_at sm2 a (?k + i) = acc"
      using sm2(6) i by simp_all
    have "entity_loc (StoreManager w') (next_id ?sm + i) = Some (a, ?k + i)"
      using e w'(4) same_shape_entity_loc [of sm2 "StoreManager w'"] by simp
    moreover have "next_id ?sm + i \<in> set ?ids" using i by simp
    then have "vals_at (StoreManager w') a (?k + i) = set_all components acc"
      using w'(5) e v by auto
    ultimately show ?thesis using acc(2) by blast
  qed
  from cm w'(2,3) sh sm2(2,3,4) wf' vals show ?thesis
    by auto
qed

lemma GetComponentTypesForEntity_loc:
  "entity_loc sm eid = Some (a, r) \<Longrightarrow> GetComponentTypesForEntity sm eid = Inr (comps_of sm ! a)"
  by (auto simp: GetComponentTypesForEntity_def nth_comps_of dest: entity_loc_SomeD)

lemma GetComponent_loc:
  assumes "entity_loc (StoreManager w) eid = Some (a, r)" and "c \<in> set (comps_of (StoreManager w) ! a)"
    and "map_of (registry w) c = Some z" and "map_of (vals_at (StoreManager w) a r) c = Some v"
  shows "GetComponent c (NewWorldContext w) eid = Inr v"
  using assms entity_loc_SomeD [OF assms(1)]
  by (simp add: GetComponent_def NewWorldContext_def GetComponentByName_def GetComponentForEntity_def
      nth_comps_of vals_at_def)

lemma wf_example: "wf_store example_store"
  by (simp add: wf_store_def layout_def example_store_def)

lemma distinct_concat_unique:
  "distinct (concat ls) \<Longrightarrow> i < length ls \<Longrightarrow> j < length ls \<Longrightarrow> x \<in> set (ls ! i) \<Longrightarrow> x \<in> set (ls ! j)
    \<Longrightarrow> i = j"
proof (induction ls arbitrary: i j)
  case Nil
  then show ?case by simp
next
  case (Cons l ls)
  have m: "x \<in> \<Union> (set ` set ls)" if "k < length ls" "x \<in> set (ls ! k)" for k
    using that nth_mem by blast
  show ?case
  proof (cases i)
    case 0
    then show ?thesis using Cons.prems m by (cases j) auto
  next
    case (Suc i')
    then show ?thesis using Cons m by (cases j) auto
  qed
qed

lemma matching_archetypes_comps:
  "matching_archetypes sm f =
     filter (\<lambda>i. MatchesComponents f (comps_of sm ! i)) [0 ..< length (comps_of sm)]"
  unfolding matching_archetypes_def
  by (rule filter_cong) (simp_all add: comps_of_def)

lemma matching_entities_layout:
  "matching_entities sm f = concat (map (\<lambda>i. layout sm ! i) (matching_archetypes sm f))"
  unfolding matching_entities_def
  by (rule arg_cong [where f = concat], rule map_cong) (simp_all add: matching_archetypes_bound nth_layout)

lemma matching_entities_member:
  assumes "wf_store sm" and "entity_loc sm eid = Some (a, r)"
  shows "eid \<in> set (matching_entities sm f) \<longleftrightarrow> MatchesComponents f (comps_of sm ! a)"
proof -
  from assms(2) have a: "a < length (archs sm)" and m: "eid \<in> set (layout sm ! a)"
    using loc_in_SomeD [of "layout sm" eid a r] loc_in_member [of "layout sm" eid a r]
    by (simp_all add: entity_loc_layout)
  have u: "i = a" if "i < length (archs sm)" "eid \<in> set (layout sm ! i)" for i
    using assms(1) that a m distinct_concat_unique [of "layout sm" i a eid]
    by (simp add: wf_store_def)
  have "eid \<in> set (matching_entities sm f) \<longleftrightarrow>
        (\<exists>i < length (archs sm). MatchesComponents f (comps_of sm ! i) \<and> eid \<in> set (layout sm ! i))"
    by (auto simp: matching_entities_layout matching_archetypes_comps length_archs_comps_of)
  also have "\<dots> \<longleftrightarrow> MatchesComponents f (comps_of sm ! a)"
    using a m u by blast
  finally show ?thesis .
qed

lemma each_entities_log_visit:
  "each_entities log_visit entities (w, log) = (True, (w, log @ entities))"
  by (induction entities arbitrary: log) (simp_all add: log_visit_def)

lemma each_archetypes_log_visit:
  assumes "\<forall>a \<in> set result. a < length (archs (StoreManager w))"
  shows "each_archetypes log_visit result (w, log) =
     (None, (w, log @ concat (map (\<lambda>i. map fst (arch_rows (archs (StoreManager w) ! i))) result)))"
  using assms
  by (induction result arbitrary: log) (simp_all add: GetEntitiesForArchID_def each_entities_log_visit)

lemma Each_log_visit:
  assumes "cache_ok q (namespace w) (StoreManager w)"
  shows "fst (Each q log_visit (w, [])) = None"
    and "snd (snd (Each q log_visit (w, []))) = (w, matching_entities (StoreManager w) (filter_f q))"
  using evaluateSearch_result [OF assms]
    each_archetypes_log_visit [of "matching_archetypes (StoreManager w) (filter_f q)" w "[]"]
  by (simp_all add: Each_def case_prod_beta matching_entities_def matching_archetypes_bound)

lemma archetype_for_comps:
  "archetype_for sm cs =
     (case index_where (\<lambda>c. set c = set cs) (comps_of sm) of
        Some a \<Rightarrow> (a, sm)
      | None \<Rightarrow> (length (comps_of sm), sm\<lparr>archs := archs sm @ [\<lparr>arch_comps = cs, arch_rows = []\<rparr>]\<rparr>))"
  unfolding archetype_for_def comps_of_def by (simp add: index_where_map cong: option.case_cong)

lemma filter_world_shape:
  "fst (CreateMany (NewWorldContext abc_world) 50 [(''alpha'', 0), (''beta'', 0)]) = Inr [0 ..< 50]
   \<and> fst (CreateMany
            (NewWorldContext (snd (CreateMany (NewWorldContext abc_world) 50 [(''alpha'', 0), (''beta'', 0)])))
            20 [(''alpha'', 0), (''beta'', 0), (''gamma'', 0)]) = Inr [50 ..< 70]
   \<and> layout (StoreManager filter_world) = [[0 ..< 50], [50 ..< 70]]
   \<and> comps_of (StoreManager filter_world) = [[''alpha'', ''beta''], [''alpha'', ''beta'', ''gamma'']]
   \<and> wf_store (StoreManager filter_world)"
proof -
  let ?c1 = "[(''alpha'', 0), (''beta'', 0 :: int)]"
  let ?c2 = "[(''alpha'', 0), (''beta'', 0), (''gamma'', 0 :: int)]"
  let ?ctx1 = "NewWorldContext abc_world"
  let ?s1 = "\<lparr>archs = [\<lparr>arch_comps = [''alpha'', ''beta''], arch_rows = []\<rparr>], next_id = 0\<rparr> :: int store"
  have g1: "GetWorld ?ctx1 = abc_world" and ro1: "\<not> IsReadOnly ?ctx1"
    by (simp_all add: NewWorldContext_def)
  have sm0: "StoreManager abc_world = empty_store"
    and reg0: "registry abc_world = [(''alpha'', 0), (''beta'', 0), (''gamma'', 0)]"
    by (simp_all add: abc_world_def)
  have wf1: "wf_store (StoreManager (GetWorld ?ctx1))"
    unfolding g1 sm0 by (simp add: wf_store_def layout_def empty_store_def)
  have reg1: "\<forall>comp' \<in> set ?c1. map_of (registry (GetWorld ?ctx1)) (Name comp') \<noteq> None"
    unfolding g1 reg0 by simp
  have af1: "archetype_for (StoreManager (GetWorld ?ctx1)) (map Name ?c1) = (0, ?s1)"
    unfolding g1 sm0 by (simp add: archetype_for_def empty_store_def)
  define w1 where "w1 = snd (CreateMany ?ctx1 50 ?c1)"
  have ls1: "layout ?s1 = [[]]" and cs1: "comps_of ?s1 = [[''alpha'', ''beta'']]"
    by (simp_all add: layout_def comps_of_def)
  from CreateMany_ok [OF ro1 wf1 reg1 af1, of 50] obtain w' where w':
    "CreateMany ?ctx1 50 ?c1 = (Inr [next_id (StoreManager (GetWorld ?ctx1)) ..< next_id (StoreManager (GetWorld ?ctx1)) + 50], w')"
    "registry w' = registry (GetWorld ?ctx1)"
    "layout (StoreManager w') = (layout ?s1)[0 := layout ?s1 ! 0 @ [next_id (StoreManager (GetWorld ?ctx1)) ..< next_id (StoreManager (GetWorld ?ctx1)) + 50]]"
    "comps_of (StoreManager w') = comps_of ?s1"
    "next_id (StoreManager w') = next_id (StoreManager (GetWorld ?ctx1)) + 50"
    "wf_store (StoreManager w')"
    by blast
  have nx: "next_id (StoreManager abc_world) = 0"
    unfolding sm0 by (simp add: empty_store_def)
  have ww: "w1 = w'" by (simp add: w1_def w'(1))
  have r1: "fst (CreateMany ?ctx1 50 ?c1) = Inr [0 ..< 50]"
    and l1: "layout (StoreManager w1) = [[0 ..< 50]]"
    and c1: "comps_of (StoreManager w1) = [[''alpha'', ''beta'']]"
    and n1: "next_id (StoreManager w1) = 50"
    and w1wf: "wf_store (StoreManager w1)"
    and w1reg: "registry w1 = [(''alpha'', 0), (''beta'', 0), (''gamma'', 0)]"
    unfolding ww using w' unfolding ls1 cs1 g1 reg0 nx
    by simp_all
  let ?ctx2 = "NewWorldContext w1"
  let ?s2 = "(StoreManager w1)\<lparr>archs := archs (StoreManager w1) @ [\<lparr>arch_comps = [''alpha'', ''beta'', ''gamma''], arch_rows = []\<rparr>]\<rparr>"
  have g2: "GetWorld ?ctx2 = w1" and ro2: "\<not> IsReadOnly ?ctx2"
    by (simp_all add: NewWorldContext_def)
  have wf2: "wf_store (StoreManager (GetWorld ?ctx2))"
    unfolding g2 by (rule w1wf)
  have reg2: "\<forall>comp' \<in> set ?c2. map_of (registry (GetWorld ?ctx2)) (Name comp') \<noteq> None"
    unfolding g2 w1reg by simp
  have ne: "set [''alpha'', ''beta''] \<noteq> set [''alpha'', ''beta'', ''gamma'']"
    by (simp add: set_eq_subset)
  have af2: "archetype_for (StoreManager (GetWorld ?ctx2)) (map Name ?c2) = (1, ?s2)"
    unfolding g2 using ne by (simp add: archetype_for_comps c1)
  have l2: "layout ?s2 = [[0 ..< 50], []]" and c2: "comps_of ?s2 = [[''alpha'', ''beta''], [''alpha'', ''beta'', ''gamma'']]"
    using l1 c1 by (simp_all add: layout_def comps_of_def)
  from CreateMany_ok [OF ro2 wf2 reg2 af2, of 20] obtain w'' where w'':
    "CreateMany ?ctx2 20 ?c2 = (Inr [next_id (StoreManager (GetWorld ?ctx2)) ..< next_id (StoreManager (GetWorld ?ctx2)) + 20], w'')"
    "layout (StoreManager w'') = (layout ?s2)[1 := layout ?s2 ! 1 @ [next_id (StoreManager (GetWorld ?ctx2)) ..< next_id (StoreManager (GetWorld ?ctx2)) + 20]]"
    "comps_of (StoreManager w'') = comps_of ?s2"
    "wf_store (StoreManager w'')"
    by blast
  have r2: "fst (CreateMany ?ctx2 20 ?c2) = Inr [50 ..< 70]"
    and l3: "layout (StoreManager (snd (CreateMany ?ctx2 20 ?c2))) = [[0 ..< 50], [50 ..< 70]]"
    and c3: "comps_of (StoreManager (snd (CreateMany ?ctx2 20 ?c2))) = [[''alpha'', ''beta''], [''alpha'', ''beta'', ''gamma'']]"
    and wf3: "wf_store (StoreManager (snd (CreateMany ?ctx2 20 ?c2)))"
    using w'' unfolding g2 n1 l2 c2
    by simp_all
  show ?thesis
    using r1 r2 l3 c3 wf3 unfolding filter_world_def w1_def by simp
qed

lemma GetComponentTypesForEntity_InrD:
  assumes "GetComponentTypesForEntity sm eid = Inr comps"
  shows "\<exists>a r. entity_loc sm eid = Some (a, r) \<and> comps = comps_of sm ! a"
proof (cases "entity_loc sm eid")
  case None
  with assms show ?thesis by (simp add: GetComponentTypesForEntity_def)
next
  case (Some p)
  obtain a r where p: "p = (a, r)" by (cases p)
  from GetComponentTypesForEntity_loc [of sm eid a r] Some p assms
  show ?thesis by simp
qed

lemma visits_filter_world:
  assumes "matching_archetypes (StoreManager filter_world) f = ms"
  shows "snd (snd (snd (Each (NewSearch f) log_visit (filter_world, []))))
       = concat (map (\<lambda>i. [[0 ..< 50], [50 ..< 70]] ! i) ms)"
  using Each_log_visit(2) [OF cache_ok_NewSearch, of f filter_world] filter_world_shape assms
  by (simp add: matching_entities_layout NewSearch_def)

lemma verify_payload_accepted:
  assumes "verify_payload verify ns st p = Inr st'"
  shows "last_seen_nonce st (persona_tag p) < nonce p"
    and "st' = st\<lparr>last_seen_nonce := (last_seen_nonce st)(persona_tag p := nonce p)\<rparr>"
  using assms by (auto simp: verify_payload_def split: if_splits option.splits)

lemma submit_all_bounds:
  assumes "submit_all verify ns st ps = (rs, st')"
  shows "last_seen_nonce st tag \<le> last_seen_nonce st' tag
       \<and> (\<forall>n \<in> set (accepted_nonces rs tag). last_seen_nonce st tag < n)
       \<and> sorted_wrt (<) (accepted_nonces rs tag)"
  using assms
proof (induction ps arbitrary: st rs)
  case Nil
  then show ?case by (simp add: accepted_nonces_def)
next
  case (Cons p ps)
  show ?case
  proof (cases "verify_payload verify ns st p")
    case (Inl e)
    obtain rs1 where r: "submit_all verify ns st ps = (rs1, st')" and rs: "rs = (p, Some e) # rs1"
      using Cons.prems Inl by (auto split: prod.splits)
    have "accepted_nonces rs tag = accepted_nonces rs1 tag"
      by (simp add: rs accepted_nonces_def)
    then show ?thesis using Cons.IH [OF r] by simp
  next
    case (Inr st1)
    obtain rs1 where r: "submit_all verify ns st1 ps = (rs1, st')" and rs: "rs = (p, None) # rs1"
      using Cons.prems Inr by (auto split: prod.splits)
    note a = verify_payload_accepted [OF Inr]
    note ih = Cons.IH [OF r]
    show ?thesis
    proof (cases "persona_tag p = tag")
      case True
      have l: "last_seen_nonce st1 tag = nonce p" using a(2) True by simp
      have an: "accepted_nonces rs tag = nonce p # accepted_nonces rs1 tag"
        using True by (simp add: rs accepted_nonces_def)
      have "last_seen_nonce st tag < nonce p" using a(1) True by simp
      then show ?thesis
        using ih l unfolding an by (simp, force)
    next
      case False
      have l: "last_seen_nonce st1 tag = last_seen_nonce st tag" using a(2) False by simp
      have an: "accepted_nonces rs tag = accepted_nonces rs1 tag"
        using False by (simp add: rs accepted_nonces_def)
      show ?thesis using ih l unfolding an by simp
    qed
  qed
qed

lemma external_tx_hash_receipt_of:
  "external_tx_hash (receipt_of system encode m) = optional_external_tx_hash m"
  by (simp add: receipt_of_def split: prod.splits option.splits)

lemma by_external_tx_hash_put:
  "by_external_tx_hash (put now rs h r) x =
     (if external_tx_hash r = Some x then Some (r, now) else by_external_tx_hash rs x)"
  by (simp add: put_def split: option.splits)

lemma foldl_put_external_none:
  assumes "\<forall>m \<in> set ms. optional_external_tx_hash m \<noteq> Some x"
  shows "by_external_tx_hash
     (foldl (\<lambda>rs m. put now rs (msg_tx_hash m) (receipt_of system encode m)) rs0 ms) x
       = by_external_tx_hash rs0 x"
  using assms
proof (induction ms rule: rev_induct)
  case Nil
  then show ?case by simp
next
  case (snoc m ms)
  then show ?case
    by (simp add: by_external_tx_hash_put external_tx_hash_receipt_of)
qed

lemma evict_fresh:
  "by_external_tx_hash rs x = Some (r, now) \<Longrightarrow> by_external_tx_hash (evict ttl now rs) x = Some (r, now)"
  "by_external_tx_hash rs x = None \<Longrightarrow> by_external_tx_hash (evict ttl now rs) x = None"
  by (simp_all add: evict_def)

lemma tick_external_last:
  assumes "optional_external_tx_hash m = Some x"
  shows "by_external_tx_hash (receipts (tick system encode ttl (e\<lparr>pending := pending e @ [m]\<rparr>))) x
       = Some (receipt_of system encode m, current_tick e)"
proof -
  have "by_external_tx_hash
     (foldl (\<lambda>rs m. put (current_tick e) rs (msg_tx_hash m) (receipt_of system encode m))
        (receipts e) (pending e @ [m])) x = Some (receipt_of system encode m, current_tick e)"
    using assms by (simp add: by_external_tx_hash_put external_tx_hash_receipt_of)
  then show ?thesis
    by (simp add: tick_def evict_fresh)
qed

lemma tick_external_none:
  assumes "by_external_tx_hash (receipts e) x = None"
    and "\<forall>m \<in> set (pending e). optional_external_tx_hash m \<noteq> Some x"
  shows "by_external_tx_hash (receipts (tick system encode ttl e)) x = None"
proof -
  have "by_external_tx_hash
     (foldl (\<lambda>rs m. put (current_tick e) rs (msg_tx_hash m) (receipt_of system encode m))
        (receipts e) (pending e)) x = None"
    unfolding foldl_put_external_none [OF assms(2)] by (rule assms(1))
  then show ?thesis
    by (simp add: tick_def evict_fresh)
qed

lemma consume_then_none:
  "by_external_tx_hash (snd (consume rs x)) x = None"
  by (simp add: consume_def split: option.splits prod.splits)

lemma fst_ConsumeEVMMsgResult:
  "fst (ConsumeEVMMsgResult e x) = map_option fst (by_external_tx_hash (receipts e) x)"
  by (simp add: ConsumeEVMMsgResult_def consume_def split: option.splits prod.splits)

lemma snd_ConsumeEVMMsgResult:
  "by_external_tx_hash (receipts (snd (ConsumeEVMMsgResult e x))) y =
     (if y = x then None else by_external_tx_hash (receipts e) y)"
  "pending (snd (ConsumeEVMMsgResult e x)) = pending e"
  "current_tick (snd (ConsumeEVMMsgResult e x)) = current_tick e"
  by (simp_all add: ConsumeEVMMsgResult_def consume_def split: option.splits prod.splits)

lemma snd_enqueue:
  "snd (enqueue hash e k input payload x) =
     e\<lparr>pending := pending e @
         [\<lparr>kind_id = k, msg_tx_hash = hash k payload, signed_payload = payload,
           decoded_input = input, optional_external_tx_hash = x\<rparr>]\<rparr>"
  by (simp add: enqueue_def)

lemma evm_test_eval:
  "evm_test =
     [Some \<lparr>tx_hash = ''tx:foo'', external_tx_hash = Some ''0xFooBar'', encoded_result = ''Y:hi'', errors = []\<rparr>,
      None,
      Some \<lparr>tx_hash = ''tx:foo'', external_tx_hash = Some ''0xFooBar'', encoded_result = [], errors = [''omg error'']\<rparr>,
      None]"
  by (simp add: evm_test_def evm_engine0_def foo_hash_def foo_encode_def enqueue_def tick_def
      put_def evict_def receipt_of_def ConsumeEVMMsgResult_def consume_def Let_def)

section \<open>Search.First and Search.MustFirst\<close>

text \<open>
  C9. For every world and every search whose cache fits the store of the world (a new
  search, or one that was evaluated on this world before): when no entity matches the
  filter, \<^verbatim>\<open>First\<close> returns \<^verbatim>\<open>BadID\<close>; when some entity matches, it returns the first
  matching entity, archetypes taken in creation order and rows in ascending order.
\<close>

theorem First_returns_first_match:
  assumes "cache_ok q (namespace w) (StoreManager w)"
  shows "fst (First q w) =
     (case matching_entities (StoreManager w) (filter_f q) of
        [] \<Rightarrow> (BadID, None)
      | eid # rest \<Rightarrow> (eid, None))"
  using assms by (rule First_result)

theorem First_returns_first_match_witness:
  "cache_ok (NewSearch (Contains [''alpha''])) (namespace example_world) (StoreManager example_world)
   \<and> matching_entities example_store (Contains [''alpha'']) = [2, 0]
   \<and> fst (First (NewSearch (Contains [''alpha''])) example_world) = (2, None)
   \<and> cache_ok (NewSearch (Contains [''gamma''])) (namespace example_world) (StoreManager example_world)
   \<and> matching_entities example_store (Contains [''gamma'']) = []
   \<and> fst (First (NewSearch (Contains [''gamma''])) example_world) = (BadID, None)"
proof -
  have a: "matching_entities example_store (Contains [''alpha'']) = [2, 0]"
    by (simp add: matching_entities_def matching_archetypes_def example_store_def upt_rec)
  have g: "matching_entities example_store (Contains [''gamma'']) = []"
    by (simp add: matching_entities_def matching_archetypes_def example_store_def upt_rec)
  have s: "StoreManager example_world = example_store" "filter_f (NewSearch f) = f" for f
    by (simp_all add: example_world_def NewSearch_def)
  show ?thesis
    using First_returns_first_match [OF cache_ok_NewSearch, of "Contains [''alpha'']" example_world]
      First_returns_first_match [OF cache_ok_NewSearch, of "Contains [''gamma'']" example_world]
    by (simp add: a g s cache_ok_NewSearch)
qed

text \<open>
  C10. When no entity matches, \<^verbatim>\<open>First\<close> returns \<^verbatim>\<open>BadID\<close> with a nil error, so
  \<^verbatim>\<open>MustFirst\<close> returns \<^verbatim>\<open>BadID\<close> and does not panic. \<^verbatim>\<open>MustFirst\<close> panics exactly when
  \<^verbatim>\<open>First\<close> returns an error, and then the store has failed to list the entities of an
  archetype of the search; with a cache that fits the store this never happens.
\<close>

theorem MustFirst_panics_only_on_store_error:
  "(cache_ok q (namespace w) (StoreManager w) \<and> matching_entities (StoreManager w) (filter_f q) = []
      \<longrightarrow> fst (First q w) = (BadID, None) \<and> fst (MustFirst q w) = Returns BadID)
   \<and> (fst (MustFirst q w) = Panics \<longleftrightarrow> (\<exists>e. snd (fst (First q w)) = Some e))
   \<and> (fst (MustFirst q w) = Panics
      \<longrightarrow> (\<exists>a \<in> set (fst (evaluateSearch q (namespace w) (StoreManager w))).
            \<exists>e. GetEntitiesForArchID (StoreManager w) a = Inl e))
   \<and> (cache_ok q (namespace w) (StoreManager w) \<longrightarrow> fst (MustFirst q w) \<noteq> Panics)"
proof (intro conjI impI)
  assume h: "cache_ok q (namespace w) (StoreManager w) \<and> matching_entities (StoreManager w) (filter_f q) = []"
  then show f: "fst (First q w) = (BadID, None)"
    using First_result [of q w] by simp
  then show "fst (MustFirst q w) = Returns BadID"
    using MustFirst_Returns [of q w] by simp
next
  show "fst (MustFirst q w) = Panics \<longleftrightarrow> (\<exists>e. snd (fst (First q w)) = Some e)"
    by (rule MustFirst_Panics)
next
  assume "fst (MustFirst q w) = Panics"
  then obtain e where "snd (fst (First q w)) = Some e"
    using MustFirst_Panics by blast
  from First_error [OF this]
  show "\<exists>a \<in> set (fst (evaluateSearch q (namespace w) (StoreManager w))).
            \<exists>e. GetEntitiesForArchID (StoreManager w) a = Inl e"
    by blast
next
  assume "cache_ok q (namespace w) (StoreManager w)"
  from First_result [OF this] have "snd (fst (First q w)) = None"
    by (simp split: list.splits)
  then show "fst (MustFirst q w) \<noteq> Panics"
    by (simp add: MustFirst_Panics)
qed

theorem MustFirst_panics_only_on_store_error_witness:
  "cache_ok (NewSearch (Contains [''gamma''])) (namespace example_world) (StoreManager example_world)
   \<and> matching_entities (StoreManager example_world) (Contains [''gamma'']) = []
   \<and> fst (First (NewSearch (Contains [''gamma''])) example_world) = (BadID, None)
   \<and> fst (MustFirst (NewSearch (Contains [''gamma''])) example_world) = Returns BadID
   \<and> fst (MustFirst stale_search example_world) = Panics
   \<and> fst (evaluateSearch stale_search (namespace example_world) (StoreManager example_world)) = [5]
   \<and> GetEntitiesForArchID (StoreManager example_world) 5 = Inl ErrArchetypeNotFound"
proof -
  have g: "matching_entities (StoreManager example_world) (Contains [''gamma'']) = []"
    by (simp add: matching_entities_def matching_archetypes_def example_world_def example_store_def upt_rec)
  have e: "fst (evaluateSearch stale_search (namespace example_world) (StoreManager example_world)) = [5]"
    by (simp add: evaluateSearch_def stale_search_def example_world_def example_store_def
        SearchFrom_def ArchetypeCount_def)
  have n: "GetEntitiesForArchID (StoreManager example_world) 5 = Inl ErrArchetypeNotFound"
    by (simp add: GetEntitiesForArchID_def example_world_def example_store_def)
  have p: "fst (MustFirst stale_search example_world) = Panics"
    by (simp add: MustFirst_def First_def evaluateSearch_def stale_search_def example_world_def
        example_store_def SearchFrom_def ArchetypeCount_def GetEntitiesForArchID_def)
  have s: "filter_f (NewSearch f) = f" for f
    by (simp add: NewSearch_def)
  show ?thesis
    using MustFirst_panics_only_on_store_error [of "NewSearch (Contains [''gamma''])" example_world]
      MustFirst_panics_only_on_store_error [of stale_search example_world]
    by (simp add: g e n p s cache_ok_NewSearch)
qed

section \<open>The search cache\<close>

text \<open>
  C5. Take a new search with filter \<open>f\<close> and any history of it: evaluations on any
  namespaces, with the stores changed in between by any operations of the store
  manager. The next cached, incremental evaluation on a namespace returns exactly the
  list that evaluating the filter from scratch over all archetypes of that store
  returns, in creation order. Hence on a world \<open>w\<close> with that namespace and store,
  \<^verbatim>\<open>Count\<close>, \<^verbatim>\<open>First\<close> and \<^verbatim>\<open>Each\<close> give on the reused search what they give on a new one.
\<close>

theorem search_cache_refinement:
  "fst (evaluateSearch (fst (run_events es (NewSearch f, worlds))) ns
          (snd (run_events es (NewSearch f, worlds)) ns))
     = matching_archetypes (snd (run_events es (NewSearch f, worlds)) ns) f
   \<and> fst (evaluateSearch (NewSearch f) ns (snd (run_events es (NewSearch f, worlds)) ns))
     = matching_archetypes (snd (run_events es (NewSearch f, worlds)) ns) f
   \<and> (namespace w = ns \<and> StoreManager w = snd (run_events es (NewSearch f, worlds)) ns \<longrightarrow>
        fst (Count (fst (run_events es (NewSearch f, worlds))) w) = fst (Count (NewSearch f) w)
      \<and> fst (First (fst (run_events es (NewSearch f, worlds))) w) = fst (First (NewSearch f) w)
      \<and> fst (Each (fst (run_events es (NewSearch f, worlds))) callback (w, u))
          = fst (Each (NewSearch f) callback (w, u))
      \<and> snd (snd (Each (fst (run_events es (NewSearch f, worlds))) callback (w, u)))
          = snd (snd (Each (NewSearch f) callback (w, u))))"
proof -
  define q where "q = fst (run_events es (NewSearch f, worlds))"
  define sm where "sm = snd (run_events es (NewSearch f, worlds)) ns"
  have "\<forall>ns. cache_ok (NewSearch f) ns (worlds ns)"
    by (simp add: cache_ok_NewSearch)
  from run_events_invariant [OF this, of es]
  have ok: "cache_ok q ns sm" and ff: "filter_f q = f"
    by (simp_all add: q_def sm_def NewSearch_def)
  have r: "fst (evaluateSearch q ns sm) = matching_archetypes sm f"
    using evaluateSearch_result [OF ok] ff by simp
  have n: "fst (evaluateSearch (NewSearch f) ns sm) = matching_archetypes sm f"
    using evaluateSearch_result [OF cache_ok_NewSearch, of f ns sm] by (simp add: NewSearch_def)
  have "fst (Count q w) = fst (Count (NewSearch f) w)
      \<and> fst (First q w) = fst (First (NewSearch f) w)
      \<and> fst (Each q callback (w, u)) = fst (Each (NewSearch f) callback (w, u))
      \<and> snd (snd (Each q callback (w, u))) = snd (snd (Each (NewSearch f) callback (w, u)))"
    if w: "namespace w = ns" "StoreManager w = sm"
  proof -
    have "fst (Count q w) = fst (Count (NewSearch f) w)"
      using r n w by (simp add: Count_def case_prod_beta)
    moreover have "fst (First q w) = fst (First (NewSearch f) w)"
      using r n w by (simp add: First_def case_prod_beta)
    moreover have "fst (Each q callback (w, u)) = fst (Each (NewSearch f) callback (w, u))
      \<and> snd (snd (Each q callback (w, u))) = snd (snd (Each (NewSearch f) callback (w, u)))"
      using r n w by (intro Each_result_only) simp
    ultimately show ?thesis by simp
  qed
  with r n show ?thesis
    unfolding q_def sm_def by blast
qed

theorem search_cache_refinement_witness:
  "fst (evaluateSearch
          (fst (run_events
                  [Mutate ''world'' (OpCreateMany 2 [(''alpha'', 0)]), Evaluate ''world'',
                   Mutate ''world'' (OpCreateMany 1 [(''beta'', 0)]), Evaluate ''other'',
                   Mutate ''world'' (OpCreateMany 1 [(''beta'', 0), (''alpha'', 0)]), Evaluate ''world'',
                   Mutate ''world'' (OpRemove 0)]
                  (NewSearch (Contains [''alpha'']), \<lambda>ns. (empty_store :: int store))))
          ''world''
          (snd (run_events
                  [Mutate ''world'' (OpCreateMany 2 [(''alpha'', 0)]), Evaluate ''world'',
                   Mutate ''world'' (OpCreateMany 1 [(''beta'', 0)]), Evaluate ''other'',
                   Mutate ''world'' (OpCreateMany 1 [(''beta'', 0), (''alpha'', 0)]), Evaluate ''world'',
                   Mutate ''world'' (OpRemove 0)]
                  (NewSearch (Contains [''alpha'']), \<lambda>ns. (empty_store :: int store))) ''world''))
     = [0, 2]
   \<and> fst (Count
          (fst (run_events
                  [Mutate ''world'' (OpCreateMany 2 [(''alpha'', 0)]), Evaluate ''world'',
                   Mutate ''world'' (OpCreateMany 1 [(''beta'', 0)]), Evaluate ''other'',
                   Mutate ''world'' (OpCreateMany 1 [(''beta'', 0), (''alpha'', 0)]), Evaluate ''world'',
                   Mutate ''world'' (OpRemove 0)]
                  (NewSearch (Contains [''alpha'']), \<lambda>ns. (empty_store :: int store))))
          \<lparr>namespace = ''world'', registry = [],
             StoreManager =
               snd (run_events
                  [Mutate ''world'' (OpCreateMany 2 [(''alpha'', 0)]), Evaluate ''world'',
                   Mutate ''world'' (OpCreateMany 1 [(''beta'', 0)]), Evaluate ''other'',
                   Mutate ''world'' (OpCreateMany 1 [(''beta'', 0), (''alpha'', 0)]), Evaluate ''world'',
                   Mutate ''world'' (OpRemove 0)]
                  (NewSearch (Contains [''alpha'']), \<lambda>ns. (empty_store :: int store))) ''world''\<rparr>)
     = Inr 2"
proof -
  define es :: "int event list" where
    "es = [Mutate ''world'' (OpCreateMany 2 [(''alpha'', 0)]), Evaluate ''world'',
           Mutate ''world'' (OpCreateMany 1 [(''beta'', 0)]), Evaluate ''other'',
           Mutate ''world'' (OpCreateMany 1 [(''beta'', 0), (''alpha'', 0)]), Evaluate ''world'',
           Mutate ''world'' (OpRemove 0)]"
  define sm where
    "sm = snd (run_events es (NewSearch (Contains [''alpha'']), \<lambda>ns. (empty_store :: int store))) ''world''"
  have c: "comps_of sm = [[''alpha''], [''beta''], [''beta'', ''alpha'']]"
    by (simp add: sm_def es_def comps_of_def empty_store_def CreateManyEntities_def archetype_for_def
        add_rows_def RemoveEntity_def entity_loc_def remove_row_def swap_remove_def Let_def)
  have l: "length (archs sm) = 3"
    using c by (simp add: length_archs_comps_of)
  have "arch_comps (archs sm ! i) = comps_of sm ! i" if "i < 3" for i
    using that l by (simp add: comps_of_def)
  then have m: "matching_archetypes sm (Contains [''alpha'']) = [0, 2]"
    using c l by (simp add: matching_archetypes_def upt_rec)
  have y: "layout sm = [[1], [2], [3]]"
    by (simp add: sm_def es_def layout_def empty_store_def CreateManyEntities_def archetype_for_def
        add_rows_def RemoveEntity_def entity_loc_def remove_row_def swap_remove_def Let_def)
  have "map fst (arch_rows (archs sm ! i)) = layout sm ! i" if "i < 3" for i
    using that l by (simp add: layout_def)
  then have e: "matching_entities sm (Contains [''alpha'']) = [1, 3]"
    using y by (simp add: matching_entities_def m)
  define w where "w = \<lparr>namespace = ''world'', registry = [], StoreManager = sm\<rparr>"
  have n: "fst (Count (NewSearch (Contains [''alpha''])) w) = Inr 2"
    using Count_result [OF cache_ok_NewSearch, of "Contains [''alpha'']" w] e
    by (simp add: w_def NewSearch_def)
  have r: "fst (evaluateSearch
          (fst (run_events es (NewSearch (Contains [''alpha'']), \<lambda>ns. (empty_store :: int store))))
          ''world'' sm) = matching_archetypes sm (Contains [''alpha''])
     \<and> fst (Count (fst (run_events es (NewSearch (Contains [''alpha'']), \<lambda>ns. (empty_store :: int store)))) w)
       = fst (Count (NewSearch (Contains [''alpha''])) w)"
    using search_cache_refinement
      [of es "Contains [''alpha'']" "\<lambda>ns. (empty_store :: int store)" "''world''" w "\<lambda>eid s. (True, s)" "()"]
    by (simp add: w_def sm_def [symmetric])
  with m n show ?thesis
    unfolding w_def sm_def es_def by simp
qed

section \<open>Read-only contexts\<close>

text \<open>
  C6. With a read-only context, \<^verbatim>\<open>CreateMany\<close>, \<^verbatim>\<open>Create\<close>, \<^verbatim>\<open>SetComponent\<close>,
  \<^verbatim>\<open>UpdateComponent\<close>, \<^verbatim>\<open>AddComponentTo\<close> and \<^verbatim>\<open>RemoveComponentFrom\<close> return the
  read-only error and leave the world as it was, for every entity and component.
  \<^verbatim>\<open>GetComponent\<close> on the same context returns the value the store holds, when the
  component is registered and is one of the components of the entity.
\<close>

theorem read_only_context_blocks_mutation:
  assumes "IsReadOnly wCtx"
  shows "CreateMany wCtx num components = (Inl ErrorCannotModifyStateWithReadOnlyContext, GetWorld wCtx)
   \<and> Create wCtx components = (Inl ErrorCannotModifyStateWithReadOnlyContext, GetWorld wCtx)
   \<and> SetComponent name wCtx eid v = (Some ErrorCannotModifyStateWithReadOnlyContext, GetWorld wCtx)
   \<and> UpdateComponent name wCtx eid fn = (Some ErrorCannotModifyStateWithReadOnlyContext, GetWorld wCtx)
   \<and> AddComponentTo name wCtx eid = (Some ErrorCannotModifyStateWithReadOnlyContext, GetWorld wCtx)
   \<and> RemoveComponentFrom name wCtx eid = (Some ErrorCannotModifyStateWithReadOnlyContext, GetWorld wCtx)
   \<and> (map_of (registry (GetWorld wCtx)) name = Some z
       \<and> GetComponentTypesForEntity (StoreManager (GetWorld wCtx)) eid = Inr cs \<and> name \<in> set cs
      \<longrightarrow> (\<exists>val. GetComponent name wCtx eid = Inr val
              \<and> GetComponentForEntity (StoreManager (GetWorld wCtx)) (name, z) eid = Inr val))"
proof -
  have "\<exists>val. GetComponent name wCtx eid = Inr val
              \<and> GetComponentForEntity (StoreManager (GetWorld wCtx)) (name, z) eid = Inr val"
    if "map_of (registry (GetWorld wCtx)) name = Some z"
      and "GetComponentTypesForEntity (StoreManager (GetWorld wCtx)) eid = Inr cs"
      and "name \<in> set cs"
    using that
    by (auto simp: GetComponent_def GetComponentByName_def GetComponentForEntity_def
        GetComponentTypesForEntity_def split: option.splits)
  then show ?thesis
    using assms
    by (simp add: CreateMany_def Create_def SetComponent_def UpdateComponent_def
        AddComponentTo_def RemoveComponentFrom_def)
qed

theorem read_only_context_blocks_mutation_witness:
  "IsReadOnly (NewReadOnlyWorldContext example_world)
   \<and> CreateMany (NewReadOnlyWorldContext example_world) 3 [(''alpha'', 5)]
       = (Inl ErrorCannotModifyStateWithReadOnlyContext, example_world)
   \<and> Create (NewReadOnlyWorldContext example_world) [(''alpha'', 5)]
       = (Inl ErrorCannotModifyStateWithReadOnlyContext, example_world)
   \<and> SetComponent ''alpha'' (NewReadOnlyWorldContext example_world) 2 5
       = (Some ErrorCannotModifyStateWithReadOnlyContext, example_world)
   \<and> UpdateComponent ''alpha'' (NewReadOnlyWorldContext example_world) 2 (\<lambda>v. v + 1)
       = (Some ErrorCannotModifyStateWithReadOnlyContext, example_world)
   \<and> AddComponentTo ''alpha'' (NewReadOnlyWorldContext example_world) 7
       = (Some ErrorCannotModifyStateWithReadOnlyContext, example_world)
   \<and> RemoveComponentFrom ''alpha'' (NewReadOnlyWorldContext example_world) 2
       = (Some ErrorCannotModifyStateWithReadOnlyContext, example_world)
   \<and> GetComponentTypesForEntity (StoreManager example_world) 2 = Inr [''alpha'', ''beta'']
   \<and> GetComponent ''alpha'' (NewReadOnlyWorldContext example_world) 2 = Inr 20"
proof -
  have r: "IsReadOnly (NewReadOnlyWorldContext example_world)"
    "GetWorld (NewReadOnlyWorldContext example_world) = example_world"
    by (simp_all add: NewReadOnlyWorldContext_def)
  have t: "GetComponentTypesForEntity (StoreManager example_world) 2 = Inr [''alpha'', ''beta'']"
    by (simp add: GetComponentTypesForEntity_def entity_loc_def example_world_def example_store_def)
  have g: "GetComponent ''alpha'' (NewReadOnlyWorldContext example_world) 2 = Inr 20"
    by (simp add: GetComponent_def GetComponentByName_def GetComponentForEntity_def entity_loc_def
        NewReadOnlyWorldContext_def example_world_def example_store_def)
  show ?thesis
    using read_only_context_blocks_mutation [OF r(1), of 3 "[(''alpha'', 5)]" "''alpha''" 2 5 "\<lambda>v. v + 1" 0 "[''alpha'', ''beta'']"]
      read_only_context_blocks_mutation [OF r(1), of 3 "[(''alpha'', 5)]" "''alpha''" 7 5 "\<lambda>v. v + 1" 0 "[''alpha'', ''beta'']"]
    by (simp add: r t g)
qed

section \<open>CreateMany\<close>

text \<open>
  C7. On a writable context, for every number \<open>num\<close> and every list of registered
  components, \<^verbatim>\<open>CreateMany\<close> returns \<open>num\<close> entity IDs, pairwise distinct; the set
  of components of each of them is the set of the components passed, and each component
  reads back the value passed for it (the value of its last occurrence, should the list
  name a component twice).
\<close>

theorem CreateMany_creates_entities:
  assumes "\<not> IsReadOnly wCtx" and "wf_store (StoreManager (GetWorld wCtx))"
    and "\<forall>comp' \<in> set components. map_of (registry (GetWorld wCtx)) (Name comp') \<noteq> None"
  shows "\<exists>ids w'. CreateMany wCtx num components = (Inr ids, w')
     \<and> length ids = num \<and> distinct ids
     \<and> (\<forall>eid \<in> set ids.
          (\<exists>cs. GetComponentTypesForEntity (StoreManager w') eid = Inr cs
                \<and> set cs = set (map Name components))
        \<and> (\<forall>c v. map_of (rev components) c = Some v
                \<longrightarrow> GetComponent c (NewWorldContext w') eid = Inr v)
        \<and> (distinct (map Name components)
            \<longrightarrow> (\<forall>comp' \<in> set components.
                   GetComponent (Name comp') (NewWorldContext w') eid = Inr (snd comp'))))"
proof -
  let ?sm = "StoreManager (GetWorld wCtx)"
  let ?ids = "[next_id ?sm ..< next_id ?sm + num]"
  obtain a sm1 where af: "archetype_for ?sm (map Name components) = (a, sm1)"
    by (cases "archetype_for ?sm (map Name components)")
  note p = archetype_for_props [OF af]
  from CreateMany_ok [OF assms af, of num] obtain w' where w':
    "CreateMany wCtx num components = (Inr ?ids, w')"
    "registry w' = registry (GetWorld wCtx)"
    "comps_of (StoreManager w') = comps_of sm1"
    "\<forall>i < num. \<exists>acc. map Name acc = map Name components
           \<and> entity_loc (StoreManager w') (next_id ?sm + i) = Some (a, length (layout sm1 ! a) + i)
           \<and> vals_at (StoreManager w') a (length (layout sm1 ! a) + i) = set_all components acc"
    by auto
  have cs: "set (comps_of (StoreManager w') ! a) = set (map Name components)"
    using w'(3) p(1,2) by (simp add: nth_comps_of)
  have per: "(\<exists>cs. GetComponentTypesForEntity (StoreManager w') eid = Inr cs
                \<and> set cs = set (map Name components))
        \<and> (\<forall>c v. map_of (rev components) c = Some v
                \<longrightarrow> GetComponent c (NewWorldContext w') eid = Inr v)
        \<and> (distinct (map Name components)
            \<longrightarrow> (\<forall>comp' \<in> set components.
                   GetComponent (Name comp') (NewWorldContext w') eid = Inr (snd comp')))"
    if "eid \<in> set ?ids" for eid
  proof -
    from that obtain i where i: "i < num" "eid = next_id ?sm + i"
      by (auto simp: nat_le_iff_add)
    with w'(4) obtain acc where acc: "map Name acc = map Name components"
      "entity_loc (StoreManager w') eid = Some (a, length (layout sm1 ! a) + i)"
      "vals_at (StoreManager w') a (length (layout sm1 ! a) + i) = set_all components acc"
      by auto
    have t: "\<exists>cs. GetComponentTypesForEntity (StoreManager w') eid = Inr cs
                \<and> set cs = set (map Name components)"
      using GetComponentTypesForEntity_loc [OF acc(2)] cs by simp
    have g: "GetComponent c (NewWorldContext w') eid = Inr v" if c: "map_of (rev components) c = Some v" for c v
    proof -
      from c have "(c, v) \<in> set components"
        using map_of_SomeD by fastforce
      then have "c \<in> set (map Name components)" and "map_of (registry w') c \<noteq> None"
        using assms(3) w'(2) by force+
      then obtain z where "c \<in> set (comps_of (StoreManager w') ! a)" "map_of (registry w') c = Some z"
        using cs by auto
      moreover have "map_of (vals_at (StoreManager w') a (length (layout sm1 ! a) + i)) c = Some v"
        using c by (simp add: acc(3) map_of_set_all)
      ultimately show ?thesis
        using acc(2) by (intro GetComponent_loc)
    qed
    have "GetComponent (Name comp') (NewWorldContext w') eid = Inr (snd comp')"
      if "distinct (map Name components)" and "comp' \<in> set components" for comp'
    proof -
      have "distinct (map fst (rev components))"
        using that(1) by (simp add: rev_map [symmetric])
      moreover have "(Name comp', snd comp') \<in> set (rev components)"
        using that(2) by simp
      ultimately have "map_of (rev components) (Name comp') = Some (snd comp')"
        by (rule map_of_is_SomeI)
      then show ?thesis by (rule g)
    qed
    with t g show ?thesis by blast
  qed
  have "length ?ids = num" and "distinct ?ids" by simp_all
  with w'(1) per show ?thesis by blast
qed

theorem CreateMany_creates_entities_witness:
  "\<not> IsReadOnly (NewWorldContext example_world)
   \<and> wf_store (StoreManager (GetWorld (NewWorldContext example_world)))
   \<and> fst (CreateMany (NewWorldContext example_world) 3 [(''alpha'', 5), (''beta'', 6)]) = Inr [8, 9, 10]
   \<and> GetComponentTypesForEntity
        (StoreManager (snd (CreateMany (NewWorldContext example_world) 3 [(''alpha'', 5), (''beta'', 6)]))) 9
       = Inr [''alpha'', ''beta'']
   \<and> GetComponent ''alpha''
        (NewWorldContext (snd (CreateMany (NewWorldContext example_world) 3 [(''alpha'', 5), (''beta'', 6)]))) 9
       = Inr 5
   \<and> GetComponent ''beta''
        (NewWorldContext (snd (CreateMany (NewWorldContext example_world) 3 [(''alpha'', 5), (''beta'', 6)]))) 10
       = Inr 6"
proof -
  let ?ctx = "NewWorldContext example_world"
  let ?comps = "[(''alpha'', 5), (''beta'', 6 :: int)]"
  have ro: "\<not> IsReadOnly ?ctx" and gw: "GetWorld ?ctx = example_world"
    by (simp_all add: NewWorldContext_def)
  have wf: "wf_store (StoreManager (GetWorld ?ctx))"
    unfolding gw by (simp add: example_world_def wf_example)
  have reg: "\<forall>comp' \<in> set ?comps. map_of (registry (GetWorld ?ctx)) (Name comp') \<noteq> None"
    unfolding gw by (simp add: example_world_def)
  have af: "archetype_for (StoreManager (GetWorld ?ctx)) (map Name ?comps) = (2, example_store)"
    unfolding gw by (simp add: example_world_def archetype_for_def example_store_def insert_commute)
  from CreateMany_ok [OF ro wf reg af, of 3]
  have ids: "fst (CreateMany ?ctx 3 ?comps) = Inr [8, 9, 10]"
    and c: "comps_of (StoreManager (snd (CreateMany ?ctx 3 ?comps))) = comps_of example_store"
    and l: "entity_loc (StoreManager (snd (CreateMany ?ctx 3 ?comps))) 9 = Some (2, 3)"
    unfolding gw by (auto simp: example_world_def example_store_def upt_rec layout_def numeral_3_eq_3)
  have ce: "comps_of example_store = [[''alpha''], [''beta''], [''alpha'', ''beta'']]"
    by (simp add: comps_of_def example_store_def)
  from GetComponentTypesForEntity_loc [OF l]
  have t: "GetComponentTypesForEntity (StoreManager (snd (CreateMany ?ctx 3 ?comps))) 9 = Inr [''alpha'', ''beta'']"
    by (simp add: c ce)
  from CreateMany_creates_entities [OF ro wf reg, of 3] ids
  have "GetComponent ''alpha'' (NewWorldContext (snd (CreateMany ?ctx 3 ?comps))) 9 = Inr 5"
    and "GetComponent ''beta'' (NewWorldContext (snd (CreateMany ?ctx 3 ?comps))) 10 = Inr 6"
    by auto
  with ro wf ids t show ?thesis by simp
qed

section \<open>Filters\<close>

text \<open>
  C4. On a store that keeps its invariant, an entity whose components are \<open>comps\<close> is
  among the entities that match \<^verbatim>\<open>Exact(cs)\<close> exactly when the set of \<open>comps\<close> is the set
  of \<open>cs\<close>, in whatever order \<open>cs\<close> lists them, and among those that match
  \<^verbatim>\<open>Contains(cs)\<close> exactly when the set of \<open>comps\<close> includes that of \<open>cs\<close>. \<^verbatim>\<open>Each\<close> with a
  callback that records its entity visits the matching entities, each once. In the world
  with 50 entities of components alpha, beta and 20 of alpha, beta, gamma, \<^verbatim>\<open>Each\<close>
  visits 50 entities for \<^verbatim>\<open>Exact\<close> of alpha, beta (in either order), 70 for \<^verbatim>\<open>Contains\<close>
  of alpha and 20 for \<^verbatim>\<open>Contains\<close> of gamma.
\<close>

theorem filter_semantics:
  "(wf_store sm \<and> GetComponentTypesForEntity sm eid = Inr comps \<longrightarrow>
       (eid \<in> set (matching_entities sm (Exact cs)) \<longleftrightarrow> set cs = set comps)
     \<and> (eid \<in> set (matching_entities sm (Contains cs)) \<longleftrightarrow> set cs \<subseteq> set comps))
   \<and> (set cs = set cs' \<longrightarrow> matching_entities sm (Exact cs) = matching_entities sm (Exact cs'))
   \<and> (cache_ok q (namespace w) (StoreManager w) \<longrightarrow>
        fst (Each q log_visit (w, [])) = None
      \<and> snd (snd (Each q log_visit (w, []))) = (w, matching_entities (StoreManager w) (filter_f q)))
   \<and> fst (CreateMany (NewWorldContext abc_world) 50 [(''alpha'', 0), (''beta'', 0)]) = Inr [0 ..< 50]
   \<and> fst (CreateMany
            (NewWorldContext (snd (CreateMany (NewWorldContext abc_world) 50 [(''alpha'', 0), (''beta'', 0)])))
            20 [(''alpha'', 0), (''beta'', 0), (''gamma'', 0)]) = Inr [50 ..< 70]
   \<and> length (snd (snd (snd (Each (NewSearch (Exact [''alpha'', ''beta''])) log_visit (filter_world, []))))) = 50
   \<and> length (snd (snd (snd (Each (NewSearch (Exact [''beta'', ''alpha''])) log_visit (filter_world, []))))) = 50
   \<and> length (snd (snd (snd (Each (NewSearch (Contains [''alpha''])) log_visit (filter_world, []))))) = 70
   \<and> length (snd (snd (snd (Each (NewSearch (Contains [''gamma''])) log_visit (filter_world, []))))) = 20"
proof -
  have 1: "(eid \<in> set (matching_entities sm (Exact cs)) \<longleftrightarrow> set cs = set comps)
     \<and> (eid \<in> set (matching_entities sm (Contains cs)) \<longleftrightarrow> set cs \<subseteq> set comps)"
    if "wf_store sm" "GetComponentTypesForEntity sm eid = Inr comps"
  proof -
    from GetComponentTypesForEntity_InrD [OF that(2)] obtain a r where
      "entity_loc sm eid = Some (a, r)" "comps = comps_of sm ! a" by auto
    then show ?thesis
      using matching_entities_member [OF that(1), of eid a r] by simp
  qed
  have 2: "matching_entities sm (Exact cs) = matching_entities sm (Exact cs')" if "set cs = set cs'"
    using that by (simp add: matching_entities_def matching_archetypes_def)
  have 3: "fst (Each q log_visit (w, [])) = None
      \<and> snd (snd (Each q log_visit (w, []))) = (w, matching_entities (StoreManager w) (filter_f q))"
    if "cache_ok q (namespace w) (StoreManager w)"
    using Each_log_visit [OF that] by simp
  have c: "comps_of (StoreManager filter_world) = [[''alpha'', ''beta''], [''alpha'', ''beta'', ''gamma'']]"
    using filter_world_shape by simp
  have m1: "matching_archetypes (StoreManager filter_world) (Exact [''alpha'', ''beta'']) = [0]"
    and m2: "matching_archetypes (StoreManager filter_world) (Exact [''beta'', ''alpha'']) = [0]"
    and m3: "matching_archetypes (StoreManager filter_world) (Contains [''alpha'']) = [0, 1]"
    and m4: "matching_archetypes (StoreManager filter_world) (Contains [''gamma'']) = [1]"
    by (simp_all add: matching_archetypes_comps c upt_rec set_eq_subset)
  show ?thesis
    using 1 2 3 filter_world_shape
      visits_filter_world [OF m1] visits_filter_world [OF m2]
      visits_filter_world [OF m3] visits_filter_world [OF m4]
    by simp
qed

theorem filter_semantics_witness:
  "wf_store example_store
   \<and> GetComponentTypesForEntity example_store 2 = Inr [''alpha'', ''beta'']
   \<and> 2 \<in> set (matching_entities example_store (Exact [''beta'', ''alpha'']))
   \<and> 2 \<in> set (matching_entities example_store (Contains [''beta'']))
   \<and> 2 \<notin> set (matching_entities example_store (Exact [''beta'']))
   \<and> matching_entities example_store (Exact [''beta'', ''alpha''])
       = matching_entities example_store (Exact [''alpha'', ''beta''])
   \<and> cache_ok (NewSearch (Exact [''beta'', ''alpha''])) (namespace example_world) (StoreManager example_world)
   \<and> snd (snd (Each (NewSearch (Exact [''beta'', ''alpha''])) log_visit (example_world, [])))
       = (example_world, matching_entities example_store (Exact [''beta'', ''alpha'']))"
proof -
  have t: "GetComponentTypesForEntity example_store 2 = Inr [''alpha'', ''beta'']"
    by (simp add: GetComponentTypesForEntity_def entity_loc_def example_store_def)
  have s: "StoreManager example_world = example_store" "filter_f (NewSearch f) = f" for f
    by (simp_all add: example_world_def NewSearch_def)
  note f1 = filter_semantics [of example_store 2 "[''alpha'', ''beta'']" "[''beta'', ''alpha'']" "[''alpha'', ''beta'']"
        "NewSearch (Exact [''beta'', ''alpha''])" example_world]
  note f2 = filter_semantics [of example_store 2 "[''alpha'', ''beta'']" "[''beta'']" "[''beta'']"
        "NewSearch (Exact [''beta'', ''alpha''])" example_world]
  have h: "wf_store example_store \<and> GetComponentTypesForEntity example_store 2 = Inr [''alpha'', ''beta'']"
    by (simp add: t wf_example)
  have k: "cache_ok (NewSearch (Exact [''beta'', ''alpha''])) (namespace example_world) (StoreManager example_world)"
    by (rule cache_ok_NewSearch)
  have a: "2 \<in> set (matching_entities example_store (Exact [''beta'', ''alpha'']))"
    using f1 [THEN conjunct1, THEN mp, OF h] by (simp add: insert_commute)
  have b: "2 \<in> set (matching_entities example_store (Contains [''beta'']))"
    using f2 [THEN conjunct1, THEN mp, OF h] by simp
  have c: "2 \<notin> set (matching_entities example_store (Exact [''beta'']))"
    using f2 [THEN conjunct1, THEN mp, OF h] by (simp add: set_eq_subset)
  have d: "matching_entities example_store (Exact [''beta'', ''alpha''])
       = matching_entities example_store (Exact [''alpha'', ''beta''])"
    using f1 [THEN conjunct2, THEN conjunct1] by (simp add: insert_commute)
  have e: "snd (snd (Each (NewSearch (Exact [''beta'', ''alpha''])) log_visit (example_world, [])))
       = (example_world, matching_entities example_store (Exact [''beta'', ''alpha'']))"
    using f1 [THEN conjunct2, THEN conjunct2, THEN conjunct1, THEN mp, OF k] by (simp add: s)
  show ?thesis
    using a b c d e h k by blast
qed

section \<open>Nonce replay protection\<close>

text \<open>
  C2. For a payload in the namespace of the world whose persona resolves to a signer
  address: a nonce less than or equal to the last seen nonce of the persona is rejected
  with \<^verbatim>\<open>StaleNonce\<close>, code 401; a greater nonce passes the nonce check, so that the
  signature alone decides, and acceptance sets the last seen nonce of the persona to the
  nonce of the payload and leaves every other persona alone. Whatever is submitted, the
  nonces accepted for one persona are strictly increasing. In the test: nonce 100 is
  accepted, 100 again and 50 are rejected with code 401 as stale, 101 is accepted.
\<close>

theorem nonce_strictly_monotonic:
  "(payload_namespace p = ns \<and> resolve_signer st p = Some addr \<longrightarrow>
      (nonce p \<le> last_seen_nonce st (persona_tag p) \<longrightarrow>
         verify_payload verify ns st p = Inl StaleNonce)
    \<and> (last_seen_nonce st (persona_tag p) < nonce p \<longrightarrow>
         verify_payload verify ns st p =
           (if verify addr (body p) (signature p)
            then Inr (st\<lparr>last_seen_nonce := (last_seen_nonce st)(persona_tag p := nonce p)\<rparr>)
            else Inl BadSignature)))
   \<and> (verify_payload verify ns st p = Inr st' \<longrightarrow>
        last_seen_nonce st (persona_tag p) < nonce p
      \<and> last_seen_nonce st' (persona_tag p) = nonce p
      \<and> (\<forall>tag. tag \<noteq> persona_tag p \<longrightarrow> last_seen_nonce st' tag = last_seen_nonce st tag))
   \<and> sorted_wrt (<) (accepted_nonces (fst (submit_all verify ns st ps)) tag)
   \<and> error_code (Some StaleNonce) = 401
   \<and> map snd (fst (submit_all (\<lambda>addr b s. True) ''world'' fresh_verifier
         [nonce_payload 100, nonce_payload 100, nonce_payload 50, nonce_payload 101]))
       = [None, Some StaleNonce, Some StaleNonce, None]
   \<and> last_seen_nonce (snd (submit_all (\<lambda>addr b s. True) ''world'' fresh_verifier
         [nonce_payload 100, nonce_payload 100, nonce_payload 50, nonce_payload 101])) ''some_dude''
       = 101"
proof -
  have 1: "verify_payload verify ns st p = Inl StaleNonce"
    if "payload_namespace p = ns" "resolve_signer st p = Some addr"
       "nonce p \<le> last_seen_nonce st (persona_tag p)"
    using that by (simp add: verify_payload_def)
  have 2: "verify_payload verify ns st p =
           (if verify addr (body p) (signature p)
            then Inr (st\<lparr>last_seen_nonce := (last_seen_nonce st)(persona_tag p := nonce p)\<rparr>)
            else Inl BadSignature)"
    if "payload_namespace p = ns" "resolve_signer st p = Some addr"
       "last_seen_nonce st (persona_tag p) < nonce p"
    using that by (simp add: verify_payload_def)
  have 3: "last_seen_nonce st (persona_tag p) < nonce p
      \<and> last_seen_nonce st' (persona_tag p) = nonce p
      \<and> (\<forall>tag. tag \<noteq> persona_tag p \<longrightarrow> last_seen_nonce st' tag = last_seen_nonce st tag)"
    if "verify_payload verify ns st p = Inr st'"
    using verify_payload_accepted [OF that] by simp
  obtain rs st2 where s: "submit_all verify ns st ps = (rs, st2)"
    by (cases "submit_all verify ns st ps")
  have 4: "sorted_wrt (<) (accepted_nonces (fst (submit_all verify ns st ps)) tag)"
    using submit_all_bounds [OF s, of tag] s by simp
  have 5: "error_code (Some StaleNonce) = 401"
    by (simp add: error_code_def)
  have v: "verify_payload (\<lambda>addr b s. True) ''world'' t (nonce_payload n) =
       (if last_seen_nonce t ''some_dude'' < n
        then Inr (t\<lparr>last_seen_nonce := (last_seen_nonce t)(''some_dude'' := n)\<rparr>)
        else Inl StaleNonce)" for t n
    by (simp add: verify_payload_def resolve_signer_def nonce_payload_def split: option.splits)
  have 6: "submit_all (\<lambda>addr b s. True) ''world'' fresh_verifier
         [nonce_payload 100, nonce_payload 100, nonce_payload 50, nonce_payload 101]
       = ([(nonce_payload 100, None), (nonce_payload 100, Some StaleNonce),
           (nonce_payload 50, Some StaleNonce), (nonce_payload 101, None)],
          fresh_verifier\<lparr>last_seen_nonce := (\<lambda>tag. if tag = ''some_dude'' then 101 else 0)\<rparr>)"
    by (simp add: v fresh_verifier_def fun_eq_iff)
  from 1 2 3 4 5 show ?thesis
    unfolding 6 by simp
qed

theorem nonce_strictly_monotonic_witness:
  "payload_namespace (nonce_payload 100) = ''world''
   \<and> resolve_signer (fresh_verifier\<lparr>last_seen_nonce := (\<lambda>tag. 100)\<rparr>) (nonce_payload 100) = Some ''0xaddr''
   \<and> nonce (nonce_payload 100) \<le> last_seen_nonce (fresh_verifier\<lparr>last_seen_nonce := (\<lambda>tag. 100)\<rparr>) (persona_tag (nonce_payload 100))
   \<and> verify_payload (\<lambda>addr b s. True) ''world'' (fresh_verifier\<lparr>last_seen_nonce := (\<lambda>tag. 100)\<rparr>) (nonce_payload 100)
       = Inl StaleNonce
   \<and> verify_payload (\<lambda>addr b s. True) ''world'' fresh_verifier (nonce_payload 100)
       = Inr (fresh_verifier\<lparr>last_seen_nonce := (last_seen_nonce fresh_verifier)(''some_dude'' := 100)\<rparr>)
   \<and> last_seen_nonce (fresh_verifier\<lparr>last_seen_nonce := (last_seen_nonce fresh_verifier)(''some_dude'' := 100)\<rparr>) ''some_dude'' = 100"
proof -
  let ?st = "fresh_verifier\<lparr>last_seen_nonce := (\<lambda>tag. 100)\<rparr>"
  let ?p = "nonce_payload 100"
  let ?v = "\<lambda>(addr :: string) (b :: body) (s :: string). True"
  let ?st' = "fresh_verifier\<lparr>last_seen_nonce := (last_seen_nonce fresh_verifier)(''some_dude'' := 100)\<rparr>"
  have a: "payload_namespace ?p = ''world''" by (simp add: nonce_payload_def)
  have b: "resolve_signer ?st ?p = Some ''0xaddr''"
    by (simp add: resolve_signer_def nonce_payload_def fresh_verifier_def)
  have c: "nonce ?p \<le> last_seen_nonce ?st (persona_tag ?p)"
    by (simp add: nonce_payload_def)
  have b0: "resolve_signer fresh_verifier ?p = Some ''0xaddr''"
    by (simp add: resolve_signer_def nonce_payload_def fresh_verifier_def)
  have c0: "last_seen_nonce fresh_verifier (persona_tag ?p) < nonce ?p"
    by (simp add: nonce_payload_def fresh_verifier_def)
  have t: "persona_tag ?p = ''some_dude''" "nonce ?p = 100" by (simp_all add: nonce_payload_def)
  note th = nonce_strictly_monotonic [where p = ?p and ns = "''world''" and st = ?st and addr = "''0xaddr''"
      and verify = ?v, THEN conjunct1, THEN mp, OF conjI [OF a b], THEN conjunct1, THEN mp, OF c]
  note th0 = nonce_strictly_monotonic [where p = ?p and ns = "''world''" and st = fresh_verifier and addr = "''0xaddr''"
      and verify = ?v and st' = ?st', THEN conjunct1, THEN mp, OF conjI [OF a b0], THEN conjunct2, THEN mp, OF c0]
  have d: "verify_payload ?v ''world'' fresh_verifier ?p = Inr ?st'"
    using th0 by (simp add: t)
  note th1 = nonce_strictly_monotonic [where p = ?p and ns = "''world''" and st = fresh_verifier
      and verify = ?v and st' = ?st', THEN conjunct2, THEN conjunct1, THEN mp, OF d, THEN conjunct2, THEN conjunct1]
  have e: "last_seen_nonce ?st' ''some_dude'' = 100"
    using th1 by (simp add: t)
  from a b c th d e show ?thesis
    by (intro conjI)
qed

section \<open>EVM receipts\<close>

text \<open>
  C8. A message is enqueued with the external transaction hash \<open>x\<close> and the next tick
  processes it. The first \<^verbatim>\<open>ConsumeEVMMsgResult(x)\<close> returns the receipt of that message:
  with the encoded result, not empty when the encoding of the result is not, and no
  error when the system returned no error; with no result and the one error when the
  system returned an error. On every engine a second call returns nothing, and the
  calls keep returning nothing over other calls and over ticks that process no message
  with the hash \<open>x\<close>. In the test the four calls return the receipt with the result,
  nothing, the receipt with the error, nothing.
\<close>

theorem evm_receipt_consumed_once:
  "fst (ConsumeEVMMsgResult (tick system encode ttl (snd (enqueue hash e k input payload (Some x)))) x)
     = Some (receipt_of system encode
         \<lparr>kind_id = k, msg_tx_hash = hash k payload, signed_payload = payload,
          decoded_input = input, optional_external_tx_hash = Some x\<rparr>)
   \<and> (system m = (out, None) \<longrightarrow>
        receipt_of system encode m =
          \<lparr>tx_hash = msg_tx_hash m, external_tx_hash = optional_external_tx_hash m,
           encoded_result = encode out, errors = []\<rparr>)
   \<and> (system m = (out, None) \<and> encode out \<noteq> [] \<longrightarrow>
        encoded_result (receipt_of system encode m) \<noteq> [] \<and> errors (receipt_of system encode m) = [])
   \<and> (system m = (out, Some err) \<longrightarrow>
        encoded_result (receipt_of system encode m) = []
      \<and> errors (receipt_of system encode m) = [err]
      \<and> length (errors (receipt_of system encode m)) = 1)
   \<and> fst (ConsumeEVMMsgResult (snd (ConsumeEVMMsgResult e' x)) x) = None
   \<and> (fst (ConsumeEVMMsgResult e' x) = None \<longrightarrow>
        fst (ConsumeEVMMsgResult (snd (ConsumeEVMMsgResult e' y)) x) = None)
   \<and> (fst (ConsumeEVMMsgResult e' x) = None
        \<and> list_all (\<lambda>m. optional_external_tx_hash m \<noteq> Some x) (pending e') \<longrightarrow>
        fst (ConsumeEVMMsgResult (tick system encode ttl e') x) = None)
   \<and> evm_test =
     [Some \<lparr>tx_hash = ''tx:foo'', external_tx_hash = Some ''0xFooBar'', encoded_result = ''Y:hi'', errors = []\<rparr>,
      None,
      Some \<lparr>tx_hash = ''tx:foo'', external_tx_hash = Some ''0xFooBar'', encoded_result = [], errors = [''omg error'']\<rparr>,
      None]"
proof -
  let ?m = "\<lparr>kind_id = k, msg_tx_hash = hash k payload, signed_payload = payload,
          decoded_input = input, optional_external_tx_hash = Some x\<rparr>"
  have o: "optional_external_tx_hash ?m = Some x" by simp
  have 1: "fst (ConsumeEVMMsgResult (tick system encode ttl (snd (enqueue hash e k input payload (Some x)))) x)
     = Some (receipt_of system encode ?m)"
    unfolding fst_ConsumeEVMMsgResult snd_enqueue tick_external_last [OF o] by simp
  have 2: "receipt_of system encode m =
          \<lparr>tx_hash = msg_tx_hash m, external_tx_hash = optional_external_tx_hash m,
           encoded_result = encode out, errors = []\<rparr>" if "system m = (out, None)"
    using that by (simp add: receipt_of_def)
  have 3: "encoded_result (receipt_of system encode m) \<noteq> [] \<and> errors (receipt_of system encode m) = []"
    if "system m = (out, None) \<and> encode out \<noteq> []"
    using that by (simp add: receipt_of_def)
  have 4: "encoded_result (receipt_of system encode m) = []
      \<and> errors (receipt_of system encode m) = [err]
      \<and> length (errors (receipt_of system encode m)) = 1" if "system m = (out, Some err)"
    using that by (simp add: receipt_of_def)
  have 5: "fst (ConsumeEVMMsgResult (snd (ConsumeEVMMsgResult e' x)) x) = None"
    by (simp add: fst_ConsumeEVMMsgResult snd_ConsumeEVMMsgResult)
  have 6: "fst (ConsumeEVMMsgResult (snd (ConsumeEVMMsgResult e' y)) x) = None"
    if "fst (ConsumeEVMMsgResult e' x) = None"
    using that by (simp add: fst_ConsumeEVMMsgResult snd_ConsumeEVMMsgResult)
  have 7: "fst (ConsumeEVMMsgResult (tick system encode ttl e') x) = None"
    if h: "fst (ConsumeEVMMsgResult e' x) = None
        \<and> list_all (\<lambda>m. optional_external_tx_hash m \<noteq> Some x) (pending e')"
  proof -
    have a: "by_external_tx_hash (receipts e') x = None"
      using h by (simp add: fst_ConsumeEVMMsgResult)
    have b: "\<forall>m \<in> set (pending e'). optional_external_tx_hash m \<noteq> Some x"
      using h by (simp add: list_all_iff)
    show ?thesis
      unfolding fst_ConsumeEVMMsgResult tick_external_none [OF a b] by simp
  qed
  show ?thesis
    using 1 2 3 4 5 6 7 evm_test_eval by blast
qed

theorem evm_receipt_consumed_once_witness:
  "foo_encode ''hi'' \<noteq> []
   \<and> encoded_result (receipt_of (\<lambda>m. (''hi'', None)) foo_encode
        \<lparr>kind_id = 1, msg_tx_hash = ''tx:foo'', signed_payload = ''foo'',
         decoded_input = 32 :: nat, optional_external_tx_hash = Some ''0xFooBar''\<rparr>) \<noteq> []
   \<and> errors (receipt_of (\<lambda>m. (''hi'', None)) foo_encode
        \<lparr>kind_id = 1, msg_tx_hash = ''tx:foo'', signed_payload = ''foo'',
         decoded_input = 32 :: nat, optional_external_tx_hash = Some ''0xFooBar''\<rparr>) = []
   \<and> encoded_result (receipt_of (\<lambda>m. ([] :: string, Some ''omg error'')) foo_encode
        \<lparr>kind_id = 1, msg_tx_hash = ''tx:foo'', signed_payload = ''foo'',
         decoded_input = 32 :: nat, optional_external_tx_hash = Some ''0xFooBar''\<rparr>) = []
   \<and> errors (receipt_of (\<lambda>m. ([] :: string, Some ''omg error'')) foo_encode
        \<lparr>kind_id = 1, msg_tx_hash = ''tx:foo'', signed_payload = ''foo'',
         decoded_input = 32 :: nat, optional_external_tx_hash = Some ''0xFooBar''\<rparr>) = [''omg error'']
   \<and> fst (ConsumeEVMMsgResult evm_engine0 ''0xFooBar'') = None
   \<and> list_all (\<lambda>m. optional_external_tx_hash m \<noteq> Some ''0xFooBar'') (pending evm_engine0)
   \<and> fst (ConsumeEVMMsgResult (snd (ConsumeEVMMsgResult evm_engine0 ''0xOther'')) ''0xFooBar'') = None
   \<and> fst (ConsumeEVMMsgResult (tick (\<lambda>m. (''hi'', None)) foo_encode 10 evm_engine0) ''0xFooBar'') = None"
proof -
  let ?m = "\<lparr>kind_id = 1, msg_tx_hash = ''tx:foo'', signed_payload = ''foo'',
         decoded_input = 32 :: nat, optional_external_tx_hash = Some ''0xFooBar''\<rparr>"
  let ?ok = "\<lambda>m :: (nat, string) message. (''hi'', None :: string option)"
  let ?bad = "\<lambda>m :: (nat, string) message. ([] :: string, Some ''omg error'')"
  have n: "foo_encode ''hi'' \<noteq> []" by (simp add: foo_encode_def)
  have a: "?ok ?m = (''hi'', None) \<and> foo_encode ''hi'' \<noteq> []" using n by simp
  have b: "?bad ?m = ([], Some ''omg error'')" by simp
  have c: "fst (ConsumeEVMMsgResult evm_engine0 ''0xFooBar'') = None"
    by (simp add: ConsumeEVMMsgResult_def consume_def evm_engine0_def)
  have d: "list_all (\<lambda>m. optional_external_tx_hash m \<noteq> Some ''0xFooBar'') (pending evm_engine0)"
    by (simp add: evm_engine0_def)
  note ok = evm_receipt_consumed_once [where system = ?ok and encode = foo_encode and m = ?m
      and out = "''hi''" and e' = evm_engine0 and x = "''0xFooBar''" and y = "''0xOther''" and ttl = 10]
  note bad = evm_receipt_consumed_once [where system = ?bad and encode = foo_encode and m = ?m
      and out = "[]" and err = "''omg error''"]
  note ok3 = ok [THEN conjunct2, THEN conjunct2, THEN conjunct1, THEN mp, OF a]
  note bad4 = bad [THEN conjunct2, THEN conjunct2, THEN conjunct2, THEN conjunct1, THEN mp, OF b]
  note ok6 = ok [THEN conjunct2, THEN conjunct2, THEN conjunct2, THEN conjunct2, THEN conjunct2,
      THEN conjunct1, THEN mp, OF c]
  note ok7 = ok [THEN conjunct2, THEN conjunct2, THEN conjunct2, THEN conjunct2, THEN conjunct2,
      THEN conjunct2, THEN conjunct1, THEN mp, OF conjI [OF c d]]
  from n ok3 [THEN conjunct1] ok3 [THEN conjunct2] bad4 [THEN conjunct1]
    bad4 [THEN conjunct2, THEN conjunct1] c d ok6 ok7
  show ?thesis
    by (intro conjI)
qed



end
